theory Spec2Isabelle
  imports Complex_Main "HOL-Library.AList" "HOL-Library.Multiset"
begin

section \<open>Constants and global parameters\<close>

text \<open>
  The module constants of \<^verbatim>\<open>exercise_1_solution.py\<close> and the class \<^verbatim>\<open>g\<close> of
  global parameters. The class is never instantiated in the source; here its attributes
  are the fields of a record, so that statements can range over every parameter setting,
  and \<open>g_class\<close> is the setting written in the source.
\<close>

definition RESULTS_CSV :: string where
  "RESULTS_CSV = ''trial_ed_results.csv''"

definition SERVICES :: "string list" where
  "SERVICES = [''Registration'', ''Triage'', ''ED_Assessment'', ''ACU_Assessment'']"

definition PERCENTILE :: real where
  "PERCENTILE = 90"

record g =
  ed_inter :: real
  mean_register :: real
  mean_triage :: real
  mean_ed_assess :: real
  mean_acu_assess :: real
  prob_acu :: real
  number_of_receptionists :: int
  number_of_nurses :: int
  number_of_ed_doctors :: int
  number_of_acu_doctors :: int
  sim_duration :: real
  warm_up_duration :: real
  number_of_runs :: int

definition g_class :: g where
  "g_class = \<lparr>ed_inter = 8, mean_register = 2, mean_triage = 5, mean_ed_assess = 30,
     mean_acu_assess = 60, prob_acu = 2 / 10, number_of_receptionists = 1,
     number_of_nurses = 2, number_of_ed_doctors = 2, number_of_acu_doctors = 1,
     sim_duration = 2880, warm_up_duration = 1440, number_of_runs = 100\<rparr>"

section \<open>Errors\<close>

text \<open>
  Every exception that can end the program is a value. \<open>ConfigurationError\<close> is the pool
  constructor's rejection of a capacity that is not positive, \<open>NegativeDelay\<close> and
  \<open>ReleaseNotHeld\<close> are the scheduler misuses of the engine, \<open>ParserError\<close> and
  \<open>EmptyDataError\<close> are raised by \<^verbatim>\<open>pandas\<close> when it reads a file, the other three are
  Python's.
\<close>

datatype error =
    ConfigurationError
  | NegativeDelay
  | ReleaseNotHeld
  | ZeroDivisionError
  | KeyError
  | FileNotFoundError
  | ParserError
  | EmptyDataError

section \<open>Random variates\<close>

text \<open>
  The module \<^verbatim>\<open>random\<close> is a collaborator outside the repository. Its state is one
  stream that every call advances by one draw, so the stream is a parameter
  \<open>rnd :: nat \<Rightarrow> real\<close> and the program threads the position of the next draw.
  For \<^verbatim>\<open>random.uniform(a, b)\<close> the draw is the unit uniform number the library scales;
  for \<^verbatim>\<open>random.expovariate(lambd)\<close> it is the unit-rate exponential variate the library
  divides by \<open>lambd\<close>.
\<close>

type_synonym random_stream = "nat \<Rightarrow> real"

definition uniform :: "real \<Rightarrow> real \<Rightarrow> real \<Rightarrow> real" where
  "uniform a b u = a + (b - a) * u"

definition expovariate :: "real \<Rightarrow> real \<Rightarrow> real" where
  "expovariate lambd e = e / lambd"

text \<open>Python's \<^verbatim>\<open>1.0 / x\<close>: division by zero raises.\<close>

definition reciprocal :: "real \<Rightarrow> error + real" where
  "reciprocal x = (if x = 0 then Inl ZeroDivisionError else Inr (1 / x))"

section \<open>Patients\<close>

text \<open>
  \<^verbatim>\<open>queue_times\<close> is a Python dict: an association list, whose order is the insertion
  order that later fixes the columns of the results table. \<^verbatim>\<open>d[k] = v\<close> is
  \<^const>\<open>AList.update\<close>: in place for a key already there, at the end for a new one.
  A value is a number or \<^verbatim>\<open>None\<close>.
\<close>

type_synonym row = "(string \<times> real option) list"

record ED_Patient =
  p_id :: nat
  is_acu_patient :: bool
  queue_times :: row

text \<open>\<^verbatim>\<open>ED_Patient.__init__\<close>; \<open>u\<close> is the draw consumed by \<^verbatim>\<open>random.uniform(0, 1)\<close>.\<close>

definition ED_Patient_init :: "nat \<Rightarrow> real \<Rightarrow> real \<Rightarrow> ED_Patient" where
  "ED_Patient_init pid prob u =
     \<lparr>p_id = pid, is_acu_patient = (uniform 0 1 u < prob),
      queue_times = [(''P_ID'', Some (real pid)), (''ED_Assessment'', None),
                     (''ACU_Assessment'', None)]\<rparr>"

definition set_queue_time :: "string \<Rightarrow> real \<Rightarrow> ED_Patient \<Rightarrow> ED_Patient" where
  "set_queue_time k v p = p\<lparr>queue_times := AList.update k (Some v) (queue_times p)\<rparr>"

section \<open>Processes and what they ask of the engine\<close>

text \<open>
  A generator function of the source is a process; between two \<^verbatim>\<open>yield\<close>s it runs
  without interruption. A value of \<open>proc\<close> is a process suspended at one of its
  \<^verbatim>\<open>yield\<close>s (or not yet started), with the local variables it needs when resumed:
  \<^item> \<open>Arrivals n\<close>: \<^verbatim>\<open>generate_ed_arrivals\<close> about to run its loop body for
    \<^verbatim>\<open>patient_id = n\<close>;
  \<^item> \<open>Journey p\<close>: \<^verbatim>\<open>ed_patient_journey(p)\<close>, created by \<^verbatim>\<open>env.process\<close>, not yet started;
  \<^item> \<open>At_request p service rest start_q_reg\<close>: inside \<^verbatim>\<open>do_service\<close> at \<^verbatim>\<open>yield req\<close>,
    \<open>rest\<close> the services the journey's loop has still to visit;
  \<^item> \<open>At_timeout p service rest\<close>: inside \<^verbatim>\<open>do_service\<close> at
    \<^verbatim>\<open>yield self.env.timeout(sampled_reg_duration)\<close>, still inside the \<^verbatim>\<open>with\<close> block.
  What a process does to the world while it runs is a list of effects, in program order:
  \<^verbatim>\<open>env.process\<close>, a \<^verbatim>\<open>yield\<close> of a timeout or of a resource request (each with the
  process to resume), the release at the end of a \<^verbatim>\<open>with\<close> block, and
  \<^verbatim>\<open>self.queing_times.append\<close>.
\<close>

datatype proc =
    Arrivals nat
  | Journey ED_Patient
  | At_request ED_Patient string "string list" real
  | At_timeout ED_Patient string "string list"

datatype effect =
    Process proc
  | Timeout real proc
  | Request string proc
  | Release string
  | Append row

section \<open>The engine: clock, event queue and resource pools\<close>

text \<open>
  Modelled from the spec: the discrete-event engine (the clock with its event queue, and
  the resource pools) is the library \<^verbatim>\<open>simpy\<close>, whose code is not among the sources.
  The definitions of this section follow sections 3, 4.1 and 4.3 of the specification:
  an event is \<open>{due_time, sequence, continuation}\<close> and the queue is ordered by
  \<open>(due_time, sequence)\<close>; \<open>schedule\<close> inserts at \<open>now + delay\<close> with the next sequence
  number and refuses a negative delay; \<open>advance\<close> pops the earliest event and sets
  \<open>now\<close> to its due time; a pool is \<open>{capacity, in_use, wait_queue}\<close>, its capacity
  must be positive, \<open>request\<close> grants at once while \<open>in_use < capacity\<close> and appends to
  the wait queue otherwise, \<open>release\<close> decrements \<open>in_use\<close> and hands the slot to the
  earliest waiting request.
\<close>

record 'k event =
  due_time :: real
  sequence :: nat
  continuation :: 'k

record 'k clock =
  now :: real
  next_sequence :: nat
  pending :: "'k event list"

definition new_clock :: "'k clock" where
  "new_clock = \<lparr>now = 0, next_sequence = 0, pending = []\<rparr>"

definition fires_before :: "'k event \<Rightarrow> 'k event \<Rightarrow> bool" where
  "fires_before a b \<longleftrightarrow>
     due_time a < due_time b \<or> (due_time a = due_time b \<and> sequence a \<le> sequence b)"

fun insert_event :: "'k event \<Rightarrow> 'k event list \<Rightarrow> 'k event list" where
  "insert_event e [] = [e]"
| "insert_event e (x # xs) =
     (if fires_before x e then x # insert_event e xs else e # x # xs)"

definition schedule :: "real \<Rightarrow> 'k \<Rightarrow> 'k clock \<Rightarrow> error + 'k clock" where
  "schedule delay k c =
     (if delay < 0 then Inl NegativeDelay
      else Inr (c\<lparr>next_sequence := Suc (next_sequence c),
                  pending := insert_event
                    \<lparr>due_time = now c + delay, sequence = next_sequence c, continuation = k\<rparr>
                    (pending c)\<rparr>))"

text \<open>
  \<open>advance\<close> returns the continuation to resume together with the clock after the pop,
  and \<open>None\<close> on an empty queue.
\<close>

definition advance :: "'k clock \<Rightarrow> ('k event \<times> 'k clock) option" where
  "advance c =
     (case pending c of
        [] \<Rightarrow> None
      | e # es \<Rightarrow> Some (e, c\<lparr>now := due_time e, pending := es\<rparr>))"

record 'k pool =
  capacity :: int
  in_use :: int
  wait_queue :: "'k list"

definition new_pool :: "int \<Rightarrow> error + 'k pool" where
  "new_pool c =
     (if c \<le> 0 then Inl ConfigurationError
      else Inr \<lparr>capacity = c, in_use = 0, wait_queue = []\<rparr>)"

text \<open>
  \<open>request k p\<close>: the pool afterwards, and \<open>Some k\<close> when \<open>k\<close> is granted a slot in the
  same instant. \<open>release p\<close>: the pool afterwards, and the waiting request that received
  the freed slot, if any.
\<close>

definition request :: "'k \<Rightarrow> 'k pool \<Rightarrow> 'k pool \<times> 'k option" where
  "request k p =
     (if in_use p < capacity p then (p\<lparr>in_use := in_use p + 1\<rparr>, Some k)
      else (p\<lparr>wait_queue := wait_queue p @ [k]\<rparr>, None))"

definition release :: "'k pool \<Rightarrow> error + ('k pool \<times> 'k option)" where
  "release p =
     (if in_use p \<le> 0 then Inl ReleaseNotHeld
      else (case wait_queue p of
              [] \<Rightarrow> Inr (p\<lparr>in_use := in_use p - 1\<rparr>, None)
            | k # ks \<Rightarrow> Inr (p\<lparr>in_use := in_use p - 1 + 1, wait_queue := ks\<rparr>, Some k)))"

section \<open>The model of the emergency department\<close>

record ED_Model =
  env :: "proc clock"
  resources :: "(string \<times> proc pool) list"
  service_times :: "(string \<times> real) list"
  run_number :: nat
  results_csv_filename :: string
  queing_times :: "row list"

text \<open>The list comprehension that builds one pool per staffing level, in order.\<close>

fun new_pools :: "int list \<Rightarrow> error + proc pool list" where
  "new_pools [] = Inr []"
| "new_pools (c # cs) =
     (case new_pool c of
        Inl x \<Rightarrow> Inl x
      | Inr p \<Rightarrow> (case new_pools cs of Inl x \<Rightarrow> Inl x | Inr ps \<Rightarrow> Inr (p # ps)))"

text \<open>\<^verbatim>\<open>ED_Model.__init__\<close>.\<close>

definition ED_Model_init :: "g \<Rightarrow> nat \<Rightarrow> string \<Rightarrow> error + ED_Model" where
  "ED_Model_init cfg run csv_filename =
     (let staffing = [number_of_receptionists cfg, number_of_nurses cfg,
                      number_of_ed_doctors cfg, number_of_acu_doctors cfg]
      in case new_pools staffing of
           Inl x \<Rightarrow> Inl x
         | Inr pools \<Rightarrow>
             Inr \<lparr>env = new_clock,
                  resources = zip SERVICES pools,
                  service_times = zip SERVICES [mean_register cfg, mean_triage cfg,
                                                mean_ed_assess cfg, mean_acu_assess cfg],
                  run_number = run,
                  results_csv_filename = csv_filename,
                  queing_times = []\<rparr>)"

text \<open>The property \<^verbatim>\<open>is_warming_up\<close>, as the source computes it.\<close>

definition is_warming_up :: "g \<Rightarrow> ED_Model \<Rightarrow> bool" where
  "is_warming_up cfg m \<longleftrightarrow> now (env m) > warm_up_duration cfg"

subsection \<open>The processes, one resumption at a time\<close>

text \<open>
  A resumption returns the effects in program order, the exception that ended the
  process (if one was raised) and the position of the next random draw.
\<close>

type_synonym resumption = "effect list \<times> error option \<times> nat"

text \<open>
  The sampling and the timed \<^verbatim>\<open>yield\<close> shared by the generator and by \<^verbatim>\<open>do_service\<close>:
  \<^verbatim>\<open>random.expovariate(1.0 / mean)\<close> followed by \<^verbatim>\<open>yield self.env.timeout(...)\<close>.
  \<open>earlier\<close> are the effects that precede it, \<open>cleanup\<close> the effects of the \<^verbatim>\<open>with\<close>
  blocks an exception leaves on its way out.
\<close>

definition sample_and_hold ::
    "random_stream \<Rightarrow> nat \<Rightarrow> real \<Rightarrow> effect list \<Rightarrow> effect list \<Rightarrow> proc \<Rightarrow> resumption" where
  "sample_and_hold rnd pos mean earlier cleanup k =
     (case reciprocal mean of
        Inl x \<Rightarrow> (earlier @ cleanup, Some x, pos)
      | Inr lambd \<Rightarrow>
          (let d = expovariate lambd (rnd pos)
           in if d < 0 then (earlier @ cleanup, Some NegativeDelay, Suc pos)
              else (earlier @ [Timeout d k], None, Suc pos)))"

text \<open>One pass through the body of the loop of \<^verbatim>\<open>generate_ed_arrivals\<close>.\<close>

definition generate_ed_arrivals ::
    "g \<Rightarrow> random_stream \<Rightarrow> ED_Model \<Rightarrow> nat \<Rightarrow> nat \<Rightarrow> resumption" where
  "generate_ed_arrivals cfg rnd m pos patient_id =
     (let p0 = ED_Patient_init patient_id (prob_acu cfg) (rnd pos);
          p1 = set_queue_time ''run_number'' (real (run_number m)) p0;
          p2 = set_queue_time ''ArrivalTime'' (now (env m)) p1
      in sample_and_hold rnd (Suc pos) (ed_inter cfg) [Process (Journey p2)] []
           (Arrivals (Suc patient_id)))"

text \<open>\<^verbatim>\<open>do_service\<close> up to \<^verbatim>\<open>yield req\<close>.\<close>

definition do_service_begin :: "ED_Model \<Rightarrow> string \<Rightarrow> string list \<Rightarrow> ED_Patient \<Rightarrow> effect list" where
  "do_service_begin m service rest patient =
     (let start_q_reg = now (env m)
      in [Request service (At_request patient service rest start_q_reg)])"

text \<open>
  \<^verbatim>\<open>do_service\<close> from \<^verbatim>\<open>yield req\<close> to the timed \<^verbatim>\<open>yield\<close>. An exception raised here
  leaves the \<^verbatim>\<open>with\<close> block, which releases the request.
\<close>

definition do_service_granted ::
    "random_stream \<Rightarrow> ED_Model \<Rightarrow> nat \<Rightarrow> ED_Patient \<Rightarrow> string \<Rightarrow> string list \<Rightarrow> real
       \<Rightarrow> resumption" where
  "do_service_granted rnd m pos patient service rest start_q_reg =
     (let q_time = now (env m) - start_q_reg;
          patient' = set_queue_time service q_time patient
      in case map_of (service_times m) service of
           None \<Rightarrow> ([Release service], Some KeyError, pos)
         | Some mean_service_time \<Rightarrow>
             sample_and_hold rnd pos mean_service_time [] [Release service]
               (At_timeout patient' service rest))"

text \<open>
  The loop of \<^verbatim>\<open>ed_patient_journey\<close> from the top of an iteration: the next
  \<^verbatim>\<open>do_service\<close>, or, after the last one, the test that appends the patient's
  \<^verbatim>\<open>queue_times\<close> to the run's results.
\<close>

definition journey_loop :: "g \<Rightarrow> ED_Model \<Rightarrow> string list \<Rightarrow> ED_Patient \<Rightarrow> effect list" where
  "journey_loop cfg m services patient =
     (case services of
        service # rest \<Rightarrow> do_service_begin m service rest patient
      | [] \<Rightarrow> (if \<not> is_warming_up cfg m then [Append (queue_times patient)] else []))"

text \<open>The services a patient visits: \<^verbatim>\<open>[*SERVICES[:2], treatment]\<close>.\<close>

definition process_services :: "ED_Patient \<Rightarrow> string list" where
  "process_services patient =
     (let treatment = (if is_acu_patient patient then ''ACU_Assessment'' else ''ED_Assessment'')
      in take 2 SERVICES @ [treatment])"

text \<open>
  Resuming a process. For \<open>At_timeout\<close> the timed \<^verbatim>\<open>yield\<close> returns, the \<^verbatim>\<open>with\<close> block
  ends (release), \<^verbatim>\<open>do_service\<close> returns, the journey stores \<^verbatim>\<open>ExitTime\<close> and goes
  round its loop.
\<close>

fun resume :: "g \<Rightarrow> random_stream \<Rightarrow> ED_Model \<Rightarrow> nat \<Rightarrow> proc \<Rightarrow> resumption" where
  "resume cfg rnd m pos (Arrivals patient_id) = generate_ed_arrivals cfg rnd m pos patient_id"
| "resume cfg rnd m pos (Journey patient) =
     (journey_loop cfg m (process_services patient) patient, None, pos)"
| "resume cfg rnd m pos (At_request patient service rest start_q_reg) =
     do_service_granted rnd m pos patient service rest start_q_reg"
| "resume cfg rnd m pos (At_timeout patient service rest) =
     (Release service #
        journey_loop cfg m rest (set_queue_time ''ExitTime'' (now (env m)) patient),
      None, pos)"

subsection \<open>The engine carrying out the effects\<close>

text \<open>
  Modelled from the spec: how the engine serves a process (sections 4.2 to 4.4). A new
  process and a granted request are resumed by the clock, through an event due now; a
  timed suspension is an event due after the delay; a request that finds no free slot
  waits in the pool's queue until a release hands it the slot.
\<close>

definition with_env :: "ED_Model \<Rightarrow> error + proc clock \<Rightarrow> error + ED_Model" where
  "with_env m r = (case r of Inl x \<Rightarrow> Inl x | Inr c \<Rightarrow> Inr (m\<lparr>env := c\<rparr>))"

definition resume_granted :: "ED_Model \<Rightarrow> proc option \<Rightarrow> error + ED_Model" where
  "resume_granted m granted =
     (case granted of None \<Rightarrow> Inr m | Some k \<Rightarrow> with_env m (schedule 0 k (env m)))"

fun perform :: "effect \<Rightarrow> ED_Model \<Rightarrow> error + ED_Model" where
  "perform (Process k) m = with_env m (schedule 0 k (env m))"
| "perform (Timeout d k) m = with_env m (schedule d k (env m))"
| "perform (Request service k) m =
     (case map_of (resources m) service of
        None \<Rightarrow> Inl KeyError
      | Some p \<Rightarrow>
          (case request k p of
             (p', granted) \<Rightarrow>
               resume_granted (m\<lparr>resources := AList.update service p' (resources m)\<rparr>) granted))"
| "perform (Release service) m =
     (case map_of (resources m) service of
        None \<Rightarrow> Inl KeyError
      | Some p \<Rightarrow>
          (case release p of
             Inl x \<Rightarrow> Inl x
           | Inr (p', granted) \<Rightarrow>
               resume_granted (m\<lparr>resources := AList.update service p' (resources m)\<rparr>) granted))"
| "perform (Append r) m = Inr (m\<lparr>queing_times := queing_times m @ [r]\<rparr>)"

fun perform_all :: "effect list \<Rightarrow> ED_Model \<Rightarrow> error + ED_Model" where
  "perform_all [] m = Inr m"
| "perform_all (x # xs) m =
     (case perform x m of Inl err \<Rightarrow> Inl err | Inr m' \<Rightarrow> perform_all xs m')"

text \<open>
  Firing one event: the clock is advanced to the event, its process runs to its next
  \<^verbatim>\<open>yield\<close>, the engine carries out what it asked for. An exception of the process ends
  the run.
\<close>

definition fire ::
    "g \<Rightarrow> random_stream \<Rightarrow> proc event \<Rightarrow> proc clock \<Rightarrow> ED_Model \<Rightarrow> nat
       \<Rightarrow> error + (ED_Model \<times> nat)" where
  "fire cfg rnd e c m pos =
     (let m1 = m\<lparr>env := c\<rparr>
      in case resume cfg rnd m1 pos (continuation e) of
           (effects, raised, pos') \<Rightarrow>
             (case perform_all effects m1 of
                Inl x \<Rightarrow> Inl x
              | Inr m2 \<Rightarrow> (case raised of Some x \<Rightarrow> Inl x | None \<Rightarrow> Inr (m2, pos'))))"

text \<open>
  \<open>run_until horizon\<close>: advance while the earliest pending event is due at or before the
  horizon. The generator reschedules itself for ever, so the loop need not end: the
  result is \<open>None\<close> when it does not. \<open>fired\<close> collects the events fired, latest first.
\<close>

partial_function (option) run_until ::
    "g \<Rightarrow> random_stream \<Rightarrow> real \<Rightarrow> proc event list \<Rightarrow> ED_Model \<Rightarrow> nat
       \<Rightarrow> (proc event list \<times> (error + (ED_Model \<times> nat))) option" where
  "run_until cfg rnd horizon fired m pos =
     (case advance (env m) of
        None \<Rightarrow> Some (fired, Inr (m, pos))
      | Some (e, c) \<Rightarrow>
          if due_time e \<le> horizon
          then (case fire cfg rnd e c m pos of
                  Inl x \<Rightarrow> Some (e # fired, Inl x)
                | Inr (m', pos') \<Rightarrow> run_until cfg rnd horizon (e # fired) m' pos')
          else Some (fired, Inr (m, pos)))"

declare run_until.simps [code]

section \<open>Results table and results file\<close>

text \<open>
  The data frames and the file are \<^verbatim>\<open>pandas\<close> and the file system, outside the
  repository. A data frame is its column labels and its rows of cells, a cell being a
  number or empty (\<^verbatim>\<open>None\<close>, \<^verbatim>\<open>NaN\<close>). A CSV file is its first line, which
  \<^verbatim>\<open>to_csv\<close> writes as the header when it creates the file, and the data lines written
  to it since; a data line is its fields, each a number or empty, and a line without
  fields is a blank line. A label is a name or, where a data line is read as the header,
  the field found there. The file system is a dict from paths to files.
\<close>

datatype label = Name string | Cell "real option"

record DataFrame =
  columns :: "label list"
  cells :: "real option list list"

record csv_file =
  header :: "label list"
  data_lines :: "real option list list"

type_synonym files = "(string \<times> csv_file) list"

text \<open>
  \<^verbatim>\<open>pd.DataFrame(list_of_dicts)\<close>: the columns are the keys in order of first
  appearance, a key a dict lacks gives an empty cell.
\<close>

definition first_seen :: "'a list \<Rightarrow> 'a list" where
  "first_seen xs = rev (remdups (rev xs))"

definition lookup_cell :: "row \<Rightarrow> string \<Rightarrow> real option" where
  "lookup_cell r c = (case map_of r c of None \<Rightarrow> None | Some v \<Rightarrow> v)"

definition DataFrame_of :: "row list \<Rightarrow> DataFrame" where
  "DataFrame_of rs =
     (let cols = first_seen (concat (map (map fst) rs))
      in \<lparr>columns = map Name cols, cells = map (\<lambda>r. map (lookup_cell r) cols) rs\<rparr>)"

text \<open>
  \<^verbatim>\<open>df.to_csv(path, header=True, index=False)\<close> writes a new file, header first (a
  blank line for a frame without columns); \<^verbatim>\<open>df.to_csv(path, mode="a", header=False,
  index=False)\<close> adds the data lines at the end of the file and writes no header.
\<close>

definition to_csv_write :: "DataFrame \<Rightarrow> string \<Rightarrow> files \<Rightarrow> files" where
  "to_csv_write df path fs =
     AList.update path \<lparr>header = columns df, data_lines = cells df\<rparr> fs"

definition to_csv_append :: "DataFrame \<Rightarrow> string \<Rightarrow> files \<Rightarrow> files" where
  "to_csv_append df path fs =
     (case map_of fs path of
        None \<Rightarrow> AList.update path \<lparr>header = [], data_lines = cells df\<rparr> fs
      | Some f \<Rightarrow> AList.update path (f\<lparr>data_lines := data_lines f @ cells df\<rparr>) fs)"

text \<open>
  \<^verbatim>\<open>pd.read_csv(path)\<close> with its default options. Blank lines are skipped; the first
  line left is the header, and a file without one raises \<^verbatim>\<open>EmptyDataError\<close>. The
  number of fields expected in a data line is that of the header or, if that is larger,
  that of the first data line: a later line with more fields raises \<^verbatim>\<open>ParserError\<close>,
  a line with fewer fields has empty cells at its end. Where the first data line has more
  fields than the header, the surplus fields at the start of every line are taken as the
  index of the frame, and the columns that the header names are the fields after them.
\<close>

definition read_lines :: "label list \<Rightarrow> real option list list \<Rightarrow> error + DataFrame" where
  "read_lines names rows =
     (let expected = (case rows of
                        [] \<Rightarrow> length names
                      | r # rest \<Rightarrow> max (length names) (length r));
          leading_cols = expected - length names
      in if list_ex (\<lambda>r. expected < length r) rows then Inl ParserError
         else Inr \<lparr>columns = names,
                   cells = map (\<lambda>r. drop leading_cols (r @ replicate (expected - length r) None))
                             rows\<rparr>)"

definition read_csv :: "string \<Rightarrow> files \<Rightarrow> error + DataFrame" where
  "read_csv path fs =
     (case map_of fs path of
        None \<Rightarrow> Inl FileNotFoundError
      | Some f \<Rightarrow>
          (let rows = filter (\<lambda>r. r \<noteq> []) (data_lines f)
           in if header f \<noteq> [] then read_lines (header f) rows
              else (case rows of
                      [] \<Rightarrow> Inl EmptyDataError
                    | r # rest \<Rightarrow> read_lines (map Cell r) rest)))"

text \<open>\<^verbatim>\<open>ED_Model.store_results\<close>.\<close>

definition store_results :: "ED_Model \<Rightarrow> files \<Rightarrow> files" where
  "store_results m fs =
     (let df = DataFrame_of (queing_times m);
          csv_path = results_csv_filename m
      in if map_of fs csv_path \<noteq> None then to_csv_append df csv_path fs
         else to_csv_write df csv_path fs)"

section \<open>One run\<close>

text \<open>
  The global state that outlives a run: the files and the position in the random stream
  (the module \<^verbatim>\<open>random\<close> is never seeded again between runs).
\<close>

record world =
  files_of :: files
  draws :: nat

text \<open>
  \<^verbatim>\<open>ED_Model.run\<close>: start the generator (\<open>start_arrivals\<close>), run the engine up to
  \<^verbatim>\<open>g.sim_duration + g.warm_up_duration\<close> (\<open>simulate\<close>), store the results. An
  exception leaves the file as it was. \<open>None\<close>: the run does not return.
\<close>

definition start_arrivals :: "ED_Model \<Rightarrow> error + ED_Model" where
  "start_arrivals m = with_env m (schedule 0 (Arrivals 1) (env m))"

definition simulate ::
    "g \<Rightarrow> random_stream \<Rightarrow> ED_Model \<Rightarrow> nat
       \<Rightarrow> (proc event list \<times> (error + (ED_Model \<times> nat))) option" where
  "simulate cfg rnd m pos =
     (case start_arrivals m of
        Inl x \<Rightarrow> Some ([], Inl x)
      | Inr m0 \<Rightarrow> run_until cfg rnd (sim_duration cfg + warm_up_duration cfg) [] m0 pos)"

definition ED_Model_run ::
    "g \<Rightarrow> random_stream \<Rightarrow> ED_Model \<Rightarrow> world \<Rightarrow> (error + world) option" where
  "ED_Model_run cfg rnd m w =
     (case simulate cfg rnd m (draws w) of
        None \<Rightarrow> None
      | Some (fired, Inl x) \<Rightarrow> Some (Inl x)
      | Some (fired, Inr (m', pos')) \<Rightarrow>
          Some (Inr \<lparr>files_of = store_results m' (files_of w), draws = pos'\<rparr>))"

section \<open>Trial results\<close>

text \<open>
  \<^verbatim>\<open>df[service]\<close> is the first column with that name and raises \<^verbatim>\<open>KeyError\<close> for a
  name the frame does not have (the program looks up the names of the services only).
\<close>

fun index_of :: "'a \<Rightarrow> 'a list \<Rightarrow> nat option" where
  "index_of x [] = None"
| "index_of x (y # ys) = (if x = y then Some 0 else map_option Suc (index_of x ys))"

definition cell_at :: "nat \<Rightarrow> real option list \<Rightarrow> real option" where
  "cell_at i r = (if i < length r then r ! i else None)"

definition column :: "DataFrame \<Rightarrow> string \<Rightarrow> error + real option list" where
  "column df c =
     (case index_of (Name c) (columns df) of
        None \<Rightarrow> Inl KeyError
      | Some i \<Rightarrow> Inr (map (cell_at i) (cells df)))"

text \<open>
  Modelled from the spec: \<^verbatim>\<open>Series.quantile(q)\<close> is \<^verbatim>\<open>pandas\<close>; the specification
  asks for linear interpolation between order statistics. Empty cells are left out; with
  \<open>n\<close> values left, sorted, the result lies at position \<open>(n - 1) * q\<close>, interpolated
  between the two neighbouring values; with none left the result is \<^verbatim>\<open>NaN\<close>, here
  \<open>None\<close>.
\<close>

definition present :: "real option list \<Rightarrow> real list" where
  "present xs = concat (map (\<lambda>x. case x of None \<Rightarrow> [] | Some v \<Rightarrow> [v]) xs)"

definition quantile :: "real option list \<Rightarrow> real \<Rightarrow> real option" where
  "quantile xs q =
     (let vs = sort (present xs); n = length vs
      in if n = 0 then None
         else (let position = real (n - 1) * q;
                   lo = nat \<lfloor>position\<rfloor>;
                   hi = min (Suc lo) (n - 1);
                   fraction = position - real lo
               in Some (vs ! lo + (vs ! hi - vs ! lo) * fraction)))"

text \<open>
  \<^verbatim>\<open>Trial_Results_Calculator\<close>: the constructor reads the file; \<^verbatim>\<open>print_trial_results\<close>
  prints one line per service. The value of a line is the quantile it shows (before it
  is formatted to one decimal).
\<close>

definition Trial_Results_Calculator_init :: "string \<Rightarrow> files \<Rightarrow> error + DataFrame" where
  "Trial_Results_Calculator_init csv_filename fs = read_csv csv_filename fs"

fun print_services :: "DataFrame \<Rightarrow> string list \<Rightarrow> error + (string \<times> real option) list" where
  "print_services df [] = Inr []"
| "print_services df (service # rest) =
     (let q = PERCENTILE / 100
      in case column df service of
           Inl x \<Rightarrow> Inl x
         | Inr xs \<Rightarrow>
             (case print_services df rest of
                Inl x \<Rightarrow> Inl x
              | Inr out \<Rightarrow> Inr ((service, quantile xs q) # out)))"

definition print_trial_results :: "DataFrame \<Rightarrow> error + (string \<times> real option) list" where
  "print_trial_results trial_results_df = print_services trial_results_df SERVICES"

section \<open>The program\<close>

text \<open>
  \<^verbatim>\<open>main\<close>: \<^verbatim>\<open>range(g.number_of_runs)\<close> is empty for a count that is not positive. The
  result is the world the program leaves and either the exception that ended it or the
  printed percentiles.
\<close>

fun run_all :: "g \<Rightarrow> random_stream \<Rightarrow> nat list \<Rightarrow> world \<Rightarrow> (world \<times> error option) option" where
  "run_all cfg rnd [] w = Some (w, None)"
| "run_all cfg rnd (run # runs) w =
     (case ED_Model_init cfg run RESULTS_CSV of
        Inl x \<Rightarrow> Some (w, Some x)
      | Inr my_ed_model \<Rightarrow>
          (case ED_Model_run cfg rnd my_ed_model w of
             None \<Rightarrow> None
           | Some (Inl x) \<Rightarrow> Some (w, Some x)
           | Some (Inr w') \<Rightarrow> run_all cfg rnd runs w'))"

definition trial_results :: "files \<Rightarrow> error + (string \<times> real option) list" where
  "trial_results fs =
     (case Trial_Results_Calculator_init RESULTS_CSV fs of
        Inl x \<Rightarrow> Inl x
      | Inr df \<Rightarrow> print_trial_results df)"

definition main ::
    "g \<Rightarrow> random_stream \<Rightarrow> world
       \<Rightarrow> (world \<times> (error + (string \<times> real option) list)) option" where
  "main cfg rnd w =
     (case run_all cfg rnd [0 ..< nat (number_of_runs cfg)] w of
        None \<Rightarrow> None
      | Some (w', Some x) \<Rightarrow> Some (w', Inl x)
      | Some (w', None) \<Rightarrow> Some (w', trial_results (files_of w')))"

section \<open>Definitions used to state the properties\<close>

text \<open>The model with its clock showing \<open>t\<close>.\<close>

definition at_time :: "real \<Rightarrow> ED_Model \<Rightarrow> ED_Model" where
  "at_time t m = m\<lparr>env := (env m)\<lparr>now := t\<rparr>\<rparr>"

subsection \<open>Runs of one pool and of one clock\<close>

text \<open>
  Any use of a pool is a sequence of requests and releases; \<open>pool_run\<close> carries it out
  and collects the requests in the order in which they are granted a slot.
  \<open>requests_of\<close> is the order in which the requests arrive.
\<close>

datatype 'k pool_op = Req 'k | Rel

fun pool_run :: "'k pool \<Rightarrow> 'k list \<Rightarrow> 'k pool_op list \<Rightarrow> error + ('k pool \<times> 'k list)" where
  "pool_run p granted [] = Inr (p, granted)"
| "pool_run p granted (Req k # ops) =
     (case request k p of
        (p', None) \<Rightarrow> pool_run p' granted ops
      | (p', Some k') \<Rightarrow> pool_run p' (granted @ [k']) ops)"
| "pool_run p granted (Rel # ops) =
     (case release p of
        Inl x \<Rightarrow> Inl x
      | Inr (p', None) \<Rightarrow> pool_run p' granted ops
      | Inr (p', Some k') \<Rightarrow> pool_run p' (granted @ [k']) ops)"

fun requests_of :: "'k pool_op list \<Rightarrow> 'k list" where
  "requests_of [] = []"
| "requests_of (Req k # ops) = k # requests_of ops"
| "requests_of (Rel # ops) = requests_of ops"

definition pool_ok :: "'k pool \<Rightarrow> bool" where
  "pool_ok p \<longleftrightarrow>
     0 \<le> in_use p \<and> in_use p \<le> capacity p \<and> (wait_queue p = [] \<or> in_use p = capacity p)"

text \<open>
  Any use of a clock is a sequence of \<open>schedule\<close> and \<open>advance\<close> calls; \<open>clock_run\<close>
  carries it out and collects the events in the order in which they fire. A \<open>burst\<close>
  schedules a list of (delay, continuation) pairs and then fires them all.
\<close>

datatype 'k clock_op = Schedule real 'k | Advance

fun clock_run ::
    "'k clock \<Rightarrow> 'k event list \<Rightarrow> 'k clock_op list \<Rightarrow> error + ('k clock \<times> 'k event list)" where
  "clock_run c fired [] = Inr (c, fired)"
| "clock_run c fired (Schedule d k # ops) =
     (case schedule d k c of Inl x \<Rightarrow> Inl x | Inr c' \<Rightarrow> clock_run c' fired ops)"
| "clock_run c fired (Advance # ops) =
     (case advance c of
        None \<Rightarrow> clock_run c fired ops
      | Some (e, c') \<Rightarrow> clock_run c' (fired @ [e]) ops)"

definition burst :: "(real \<times> 'k) list \<Rightarrow> 'k clock_op list" where
  "burst evs = map (\<lambda>(d, k). Schedule d k) evs @ replicate (length evs) Advance"

definition timed :: "'k event \<Rightarrow> real \<times> 'k" where
  "timed e = (due_time e, continuation e)"

text \<open>
  \<open>precedes a b\<close>: \<open>a\<close> is due earlier than \<open>b\<close>, or at the same instant and scheduled
  earlier. \<open>clock_inv c fired\<close>, for a clock and the events it has fired so far: the
  fired events followed by the pending ones are in this order, their sequence numbers
  are exactly the numbers given out so far, and \<open>now\<close> lies between the due times of
  the fired and of the pending events.
\<close>

definition precedes :: "'k event \<Rightarrow> 'k event \<Rightarrow> bool" where
  "precedes a b \<longleftrightarrow>
     due_time a < due_time b \<or> (due_time a = due_time b \<and> sequence a < sequence b)"

definition clock_inv :: "'k clock \<Rightarrow> 'k event list \<Rightarrow> bool" where
  "clock_inv c fired \<longleftrightarrow>
     sorted_wrt precedes (fired @ pending c) \<and>
     sequence ` set (fired @ pending c) = {..< next_sequence c} \<and>
     (\<forall>e \<in> set fired. due_time e \<le> now c) \<and>
     (\<forall>e \<in> set (pending c). now c \<le> due_time e)"

definition scheduled :: "'k clock \<Rightarrow> (real \<times> 'k) list \<Rightarrow> bool" where
  "scheduled c evs \<longleftrightarrow>
     clock_inv c [] \<and> now c = 0 \<and> mset (map timed (pending c)) = mset evs \<and>
     (\<forall>t. filter (\<lambda>x. fst x = t) (map timed (pending c)) = filter (\<lambda>x. fst x = t) evs)"

subsection \<open>Runs of the model\<close>

text \<open>
  The staffing level configured for each service, and what stays true of the pools of a
  model all along a run.
\<close>

definition staffing_of :: "g \<Rightarrow> (string \<times> int) list" where
  "staffing_of cfg =
     zip SERVICES [number_of_receptionists cfg, number_of_nurses cfg,
                   number_of_ed_doctors cfg, number_of_acu_doctors cfg]"

definition pools_inv :: "g \<Rightarrow> ED_Model \<Rightarrow> bool" where
  "pools_inv cfg m \<longleftrightarrow>
     map fst (resources m) = SERVICES \<and>
     (\<forall>service p. map_of (resources m) service = Some p \<longrightarrow>
        pool_ok p \<and> map_of (staffing_of cfg) service = Some (capacity p))"

text \<open>What no event of a run changes in a model.\<close>

definition same_setup :: "ED_Model \<Rightarrow> ED_Model \<Rightarrow> bool" where
  "same_setup m m' \<longleftrightarrow>
     service_times m' = service_times m \<and> run_number m' = run_number m \<and>
     results_csv_filename m' = results_csv_filename m"

text \<open>
  What a run leaves behind, for a horizon: the events it fired (latest first) were due
  at or before the horizon and fired in order; if it ended without an exception, the
  events still pending are due after the horizon, and the clock and the pools are sound.
\<close>

definition run_result_ok ::
    "g \<Rightarrow> real \<Rightarrow> proc event list \<times> (error + (ED_Model \<times> nat)) \<Rightarrow> bool" where
  "run_result_ok cfg horizon res \<longleftrightarrow>
     sorted_wrt precedes (rev (fst res)) \<and>
     (\<forall>e \<in> set (fst res). due_time e \<le> horizon) \<and>
     (case snd res of
        Inl x \<Rightarrow> True
      | Inr (m', pos') \<Rightarrow>
          clock_inv (env m') (rev (fst res)) \<and> pools_inv cfg m' \<and>
          (\<forall>e \<in> set (pending (env m')). horizon < due_time e))"

text \<open>
  The same, relative to the state the run started from: the events fired are added to
  those fired before, the clock has not gone back, the setup is unchanged.
\<close>

definition run_post ::
    "g \<Rightarrow> real \<Rightarrow> proc event list \<Rightarrow> ED_Model
       \<Rightarrow> proc event list \<times> (error + (ED_Model \<times> nat)) \<Rightarrow> bool" where
  "run_post cfg horizon fired m res \<longleftrightarrow>
     run_result_ok cfg horizon res \<and> (\<exists>new. fst res = new @ fired) \<and>
     (case snd res of
        Inl x \<Rightarrow> True
      | Inr (m', pos') \<Rightarrow> now (env m) \<le> now (env m') \<and> same_setup m m')"

text \<open>
  A run seen one event at a time. \<open>pool_ops service effs\<close> are the requests and releases
  that a list of effects addresses to the pool of one service, in order. \<open>run_steps\<close>
  relates a state of the model to every state that the loop of \<open>run_until\<close> can reach
  from it by firing pending events one after the other, whatever the horizon, together
  with the effects that the resumed processes produced on the way.
\<close>

fun pool_ops :: "string \<Rightarrow> effect list \<Rightarrow> proc pool_op list" where
  "pool_ops s [] = []"
| "pool_ops s (Request s' k # es) = (if s' = s then Req k # pool_ops s es else pool_ops s es)"
| "pool_ops s (Release s' # es) = (if s' = s then Rel # pool_ops s es else pool_ops s es)"
| "pool_ops s (e # es) = pool_ops s es"

inductive run_steps ::
    "g \<Rightarrow> random_stream \<Rightarrow> ED_Model \<times> nat \<Rightarrow> effect list \<Rightarrow> ED_Model \<times> nat \<Rightarrow> bool" where
  stay: "run_steps cfg rnd s [] s"
| step: "advance (env m) = Some (e, c) \<Longrightarrow> fire cfg rnd e c m pos = Inr s1 \<Longrightarrow>
         run_steps cfg rnd s1 effs s2 \<Longrightarrow>
         run_steps cfg rnd (m, pos)
           (fst (resume cfg rnd (m\<lparr>env := c\<rparr>) pos (continuation e)) @ effs) s2"

text \<open>
  The keys of a patient's \<^verbatim>\<open>queue_times\<close> along the journey. The generator hands over
  a patient with \<open>arrival_keys\<close>; registration adds its key and \<^verbatim>\<open>ExitTime\<close>, triage
  adds its key, and the last service stores under a key that is there from the start:
  a patient who has been through the three services has \<open>exit_keys\<close>. \<open>about_to ks todo\<close>
  says that \<open>ks\<close> are the keys of a patient who has still to visit \<open>todo\<close>; \<open>proc_ok\<close>
  says so of the patient of a suspended process, \<open>effect_ok\<close> of an effect, and
  \<open>journeys_inv\<close> of the processes that a model holds in its event queue and in the
  wait queues of its pools, and of the rows it has recorded.
\<close>

definition arrival_keys :: "string list" where
  "arrival_keys = [''P_ID'', ''ED_Assessment'', ''ACU_Assessment'', ''run_number'', ''ArrivalTime'']"

definition exit_keys :: "string list" where
  "exit_keys = arrival_keys @ [''Registration'', ''ExitTime'', ''Triage'']"

definition keys_with :: "string \<Rightarrow> string list \<Rightarrow> string list" where
  "keys_with k ks = (if k \<in> set ks then ks else ks @ [k])"

definition about_to :: "string list \<Rightarrow> string list \<Rightarrow> bool" where
  "about_to ks todo \<longleftrightarrow>
     (\<exists>t. (t = ''ED_Assessment'' \<or> t = ''ACU_Assessment'') \<and>
        (todo = [''Registration'', ''Triage'', t] \<and> ks = arrival_keys \<or>
         todo = [''Triage'', t] \<and> ks = arrival_keys @ [''Registration'', ''ExitTime''] \<or>
         todo = [t] \<and> ks = exit_keys))
     \<or> todo = [] \<and> ks = exit_keys"

fun proc_ok :: "proc \<Rightarrow> bool" where
  "proc_ok (Arrivals n) = True"
| "proc_ok (Journey p) = about_to (map fst (queue_times p)) (process_services p)"
| "proc_ok (At_request p service rest start) = about_to (map fst (queue_times p)) (service # rest)"
| "proc_ok (At_timeout p service rest) =
     about_to (keys_with ''ExitTime'' (map fst (queue_times p))) rest"

fun effect_ok :: "effect \<Rightarrow> bool" where
  "effect_ok (Process k) = proc_ok k"
| "effect_ok (Timeout d k) = proc_ok k"
| "effect_ok (Request service k) = proc_ok k"
| "effect_ok (Release service) = True"
| "effect_ok (Append r) = (map fst r = exit_keys)"

definition journeys_inv :: "ED_Model \<Rightarrow> bool" where
  "journeys_inv m \<longleftrightarrow>
     (\<forall>r \<in> set (queing_times m). map fst r = exit_keys) \<and>
     (\<forall>e \<in> set (pending (env m)). proc_ok (continuation e)) \<and>
     (\<forall>service p. map_of (resources m) service = Some p \<longrightarrow>
        (\<forall>k \<in> set (wait_queue p). proc_ok k))"

subsection \<open>A journey seen from outside\<close>

text \<open>
  What an observer of one process sees of an effect: which pool is asked for and freed,
  how long a resource is held together with the queueing time the patient's
  \<^verbatim>\<open>queue_times\<close> shows for that service at that moment, how long the generator
  sleeps, which row is appended.
\<close>

datatype action =
    Asks string
  | Holds string real "real option"
  | Sleeps real
  | Frees string
  | Records row
  | Starts

fun seen :: "effect \<Rightarrow> action" where
  "seen (Request service k) = Asks service"
| "seen (Timeout d (At_timeout p service rest)) =
     Holds service d (lookup_cell (queue_times p) service)"
| "seen (Timeout d k) = Sleeps d"
| "seen (Release service) = Frees service"
| "seen (Append r) = Records r"
| "seen (Process k) = Starts"

text \<open>The process a resumption ended in, suspended: the \<^verbatim>\<open>yield\<close> is its last effect.\<close>

definition suspended :: "effect list \<Rightarrow> proc option" where
  "suspended effects =
     (case rev effects of
        Timeout d k # earlier \<Rightarrow> Some k
      | Request service k # earlier \<Rightarrow> Some k
      | _ \<Rightarrow> None)"

text \<open>
  One process resumed again and again, at the given clock readings and positions of the
  random stream (whatever the engine and the other processes do in between): what it
  does at each resumption.
\<close>

fun trace :: "g \<Rightarrow> random_stream \<Rightarrow> ED_Model \<Rightarrow> (real \<times> nat) list \<Rightarrow> proc \<Rightarrow> action list list" where
  "trace cfg rnd m [] k = []"
| "trace cfg rnd m ((t, pos) # later) k =
     (case resume cfg rnd (at_time t m) pos k of
        (effects, raised, pos') \<Rightarrow>
          map seen effects #
            (case (raised, suspended effects) of
               (None, Some k') \<Rightarrow> trace cfg rnd m later k'
             | _ \<Rightarrow> []))"

text \<open>The service of the last \<^verbatim>\<open>do_service\<close> of a journey and its configured mean.\<close>

definition treatment_of :: "ED_Patient \<Rightarrow> string" where
  "treatment_of p = (if is_acu_patient p then ''ACU_Assessment'' else ''ED_Assessment'')"

definition treatment_mean :: "g \<Rightarrow> ED_Patient \<Rightarrow> real" where
  "treatment_mean cfg p = (if is_acu_patient p then mean_acu_assess cfg else mean_ed_assess cfg)"

subsection \<open>Trials\<close>

text \<open>
  Two worlds that give a trial the same inputs: the same results file and the same
  position in the random stream. \<open>trial_twice\<close> runs the program, resets the random
  stream to where it was and runs the program again in the world the first run left.
\<close>

definition same_inputs :: "world \<Rightarrow> world \<Rightarrow> bool" where
  "same_inputs w1 w2 \<longleftrightarrow>
     map_of (files_of w1) RESULTS_CSV = map_of (files_of w2) RESULTS_CSV \<and> draws w1 = draws w2"

definition trial_twice ::
    "g \<Rightarrow> random_stream \<Rightarrow> world
       \<Rightarrow> ((error + (string \<times> real option) list) \<times> (error + (string \<times> real option) list)) option" where
  "trial_twice cfg rnd w =
     (case main cfg rnd w of
        None \<Rightarrow> None
      | Some (w', out1) \<Rightarrow>
          (case main cfg rnd (w'\<lparr>draws := draws w\<rparr>) of
             None \<Rightarrow> None
           | Some (w'', out2) \<Rightarrow> Some (out1, out2)))"

text \<open>The configurations the claim about configuration errors speaks of.\<close>

definition invalid_configuration :: "g \<Rightarrow> bool" where
  "invalid_configuration cfg \<longleftrightarrow>
     number_of_receptionists cfg \<le> 0 \<or> number_of_nurses cfg \<le> 0 \<or>
     number_of_ed_doctors cfg \<le> 0 \<or> number_of_acu_doctors cfg \<le> 0 \<or>
     ed_inter cfg \<le> 0 \<or> mean_register cfg \<le> 0 \<or> mean_triage cfg \<le> 0 \<or>
     mean_ed_assess cfg \<le> 0 \<or> mean_acu_assess cfg \<le> 0 \<or>
     prob_acu cfg < 0 \<or> 1 < prob_acu cfg \<or>
     number_of_runs cfg \<le> 0 \<or> sim_duration cfg \<le> 0 \<or> warm_up_duration cfg \<le> 0"

text \<open>
  A file as \<^verbatim>\<open>to_csv\<close> leaves it when every frame written to it had the columns of the
  first: a header that is not blank, and as many fields in every data line as in the
  header.
\<close>

definition well_formed :: "csv_file \<Rightarrow> bool" where
  "well_formed f \<longleftrightarrow>
     header f \<noteq> [] \<and> list_all (\<lambda>r. length r = length (header f)) (data_lines f)"

subsection \<open>Example settings\<close>

text \<open>
  A small department: one member of staff at every service, means of one minute, a
  warm-up of 50 minutes followed by 50 more. \<open>example_rnd\<close> makes the first patient
  stay five minutes at registration while the second arrives after one minute.
\<close>

definition example_g :: g where
  "example_g = \<lparr>ed_inter = 1, mean_register = 1, mean_triage = 1, mean_ed_assess = 1,
     mean_acu_assess = 1, prob_acu = 2 / 10, number_of_receptionists = 1,
     number_of_nurses = 1, number_of_ed_doctors = 1, number_of_acu_doctors = 1,
     sim_duration = 50, warm_up_duration = 50, number_of_runs = 1\<rparr>"

definition example_rnd :: random_stream where
  "example_rnd n =
     (if n = 1 then 1 else if n = 2 then 5 else if n = 4 then 100
      else if n = 0 \<or> n = 3 then 1 / 2 else 1)"

definition empty_world :: world where
  "empty_world = \<lparr>files_of = [], draws = 0\<rparr>"

text \<open>
  The second patient of that run as the generator creates her, a results file left by an
  earlier program run, and a model with one patient in its results and a mean service
  time of zero at registration.
\<close>

definition example_patient :: ED_Patient where
  "example_patient =
     set_queue_time ''ArrivalTime'' 1
       (set_queue_time ''run_number'' 0 (ED_Patient_init 2 (prob_acu example_g) (example_rnd 3)))"

definition example_file :: csv_file where
  "example_file =
     \<lparr>header = map Name [''P_ID'', ''ED_Assessment'', ''ACU_Assessment'', ''run_number'',
                          ''ArrivalTime'', ''Registration'', ''ExitTime'', ''Triage''],
      data_lines = [[Some 1, Some 2, None, Some 0, Some 0, Some 9, Some 30, Some 3]]\<rparr>"

definition example_model :: ED_Model where
  "example_model =
     \<lparr>env = new_clock, resources = [], service_times = [(''Registration'', 0)], run_number = 0,
      results_csv_filename = RESULTS_CSV,
      queing_times = [[(''P_ID'', Some 1), (''Registration'', Some 4)]]\<rparr>"

section \<open>Resource pools\<close>

text \<open>
  A request and a release keep a pool sound and leave its capacity alone; what they grant,
  put before the wait queue they leave, is the wait queue they found with the new
  request at its end.
\<close>

lemma request_ok:
  "pool_ok p \<Longrightarrow> request k p = (p', g) \<Longrightarrow>
     pool_ok p' \<and> capacity p' = capacity p \<and>
     (case g of None \<Rightarrow> [] | Some k' \<Rightarrow> [k']) @ wait_queue p' = wait_queue p @ [k]"
  by (auto simp: pool_ok_def request_def split: if_splits)

lemma release_ok:
  "pool_ok p \<Longrightarrow> release p = Inr (p', g) \<Longrightarrow>
     pool_ok p' \<and> capacity p' = capacity p \<and>
     (case g of None \<Rightarrow> [] | Some k' \<Rightarrow> [k']) @ wait_queue p' = wait_queue p"
  by (auto simp: pool_ok_def release_def split: if_splits list.splits)

lemma pool_run_ok:
  "pool_ok p \<Longrightarrow> pool_run p granted ops = Inr (q, grants) \<Longrightarrow>
     pool_ok q \<and> capacity q = capacity p \<and>
     grants @ wait_queue q = granted @ wait_queue p @ requests_of ops"
proof (induction p granted ops rule: pool_run.induct)
  case (1 p granted)
  then show ?case by simp
next
  case (2 p granted k ops)
  obtain p' g where r: "request k p = (p', g)" by (cases "request k p")
  from request_ok [OF "2.prems"(1) r]
  have ok: "pool_ok p'" and cap: "capacity p' = capacity p"
    and q: "(case g of None \<Rightarrow> [] | Some k' \<Rightarrow> [k']) @ wait_queue p' = wait_queue p @ [k]"
    by simp_all
  show ?case
  proof (cases g)
    case None
    with r "2.prems"(2) have "pool_run p' granted ops = Inr (q, grants)" by simp
    from "2.IH"(1) [OF r [symmetric] None ok this] cap q None
    show ?thesis by simp
  next
    case (Some k')
    with r "2.prems"(2) have "pool_run p' (granted @ [k']) ops = Inr (q, grants)" by simp
    from "2.IH"(2) [OF r [symmetric] Some ok this] cap q Some
    show ?thesis by simp
  qed
next
  case (3 p granted ops)
  from "3.prems"(2) obtain p' g where r: "release p = Inr (p', g)"
    by (cases "release p") auto
  from release_ok [OF "3.prems"(1) r]
  have ok: "pool_ok p'" and cap: "capacity p' = capacity p"
    and q: "(case g of None \<Rightarrow> [] | Some k' \<Rightarrow> [k']) @ wait_queue p' = wait_queue p"
    by simp_all
  show ?case
  proof (cases g)
    case None
    with r "3.prems"(2) have "pool_run p' granted ops = Inr (q, grants)" by simp
    from "3.IH"(1) [OF r _ None ok this] cap q None
    show ?thesis by simp
  next
    case (Some k')
    with r "3.prems"(2) have "pool_run p' (granted @ [k']) ops = Inr (q, grants)" by simp
    from "3.IH"(2) [OF r _ Some ok this] cap q Some
    show ?thesis by simp
  qed
qed

lemma new_pool_ok: "new_pool C = Inr p \<Longrightarrow> pool_ok p \<and> capacity p = C \<and> wait_queue p = [] \<and> in_use p = 0"
  by (auto simp: new_pool_def pool_ok_def split: if_splits)

section \<open>Clock and event queue\<close>

text \<open>
  Inserting an event whose sequence number is larger than all those in the queue keeps
  the queue in firing order and puts the event behind the events due at the same time.
\<close>

lemma set_insert_event [simp]: "set (insert_event e xs) = insert e (set xs)"
  by (induction xs) auto

lemma mset_insert_event [simp]: "mset (insert_event e xs) = add_mset e (mset xs)"
  by (induction xs) auto

lemma sorted_insert_event:
  "sorted_wrt precedes xs \<Longrightarrow> \<forall>x \<in> set xs. sequence x < sequence e \<Longrightarrow>
     sorted_wrt precedes (insert_event e xs)"
proof (induction xs)
  case Nil
  then show ?case by simp
next
  case (Cons x xs)
  show ?case
  proof (cases "fires_before x e")
    case True
    with Cons.prems have "precedes x e" by (auto simp: fires_before_def precedes_def)
    with Cons True show ?thesis by auto
  next
    case False
    then have xe: "precedes e x" by (auto simp: fires_before_def precedes_def)
    have "\<forall>y \<in> set xs. precedes e y"
    proof
      fix y assume "y \<in> set xs"
      with Cons.prems(1) have "precedes x y" by simp
      with xe show "precedes e y" by (auto simp: precedes_def)
    qed
    with False xe Cons.prems(1) show ?thesis by simp
  qed
qed

lemma clock_inv_sequence:
  "clock_inv c fired \<Longrightarrow> e \<in> set (fired @ pending c) \<Longrightarrow> sequence e < next_sequence c"
  unfolding clock_inv_def by (metis imageI lessThan_iff)

lemma schedule_inv:
  assumes "clock_inv c fired" and "schedule d k c = Inr c'"
  shows "clock_inv c' fired \<and> now c' = now c"
proof -
  let ?e = "\<lparr>due_time = now c + d, sequence = next_sequence c, continuation = k\<rparr>"
  from assms(2) have d: "0 \<le> d"
    and c': "c' = c\<lparr>next_sequence := Suc (next_sequence c), pending := insert_event ?e (pending c)\<rparr>"
    by (auto simp: schedule_def split: if_splits)
  from assms(1) have s: "sorted_wrt precedes fired" "sorted_wrt precedes (pending c)"
    and fp: "\<forall>f \<in> set fired. \<forall>e \<in> set (pending c). precedes f e"
    and im: "sequence ` set (fired @ pending c) = {..< next_sequence c}"
    and fn: "\<forall>e \<in> set fired. due_time e \<le> now c"
    and pn: "\<forall>e \<in> set (pending c). now c \<le> due_time e"
    by (auto simp: clock_inv_def sorted_wrt_append)
  have sq: "\<forall>e \<in> set (fired @ pending c). sequence e < next_sequence c"
    using clock_inv_sequence [OF assms(1)] by blast
  have 1: "sorted_wrt precedes (insert_event ?e (pending c))"
    using s(2) sq by (intro sorted_insert_event) auto
  have 2: "\<forall>f \<in> set fired. precedes f ?e"
    using fn sq d by (fastforce simp: precedes_def)
  have 3: "sequence ` set (fired @ insert_event ?e (pending c)) = {..< Suc (next_sequence c)}"
    using im by (auto simp: lessThan_Suc)
  have 4: "sorted_wrt precedes (fired @ insert_event ?e (pending c))"
    using s(1) 1 2 fp by (auto simp: sorted_wrt_append)
  show ?thesis
    unfolding clock_inv_def c' using 3 4 fn pn d by auto
qed

lemma advance_inv:
  assumes "clock_inv c fired" and "advance c = Some (e, c')"
  shows "clock_inv c' (fired @ [e]) \<and> now c \<le> now c' \<and> now c' = due_time e"
proof -
  from assms(2) obtain es where p: "pending c = e # es"
    and c': "c' = c\<lparr>now := due_time e, pending := es\<rparr>"
    by (auto simp: advance_def split: list.splits)
  from assms(1) p have "sorted_wrt precedes (fired @ e # es)"
    and im: "sequence ` set (fired @ e # es) = {..< next_sequence c}"
    and fn: "\<forall>x \<in> set fired. due_time x \<le> now c"
    and pn: "\<forall>x \<in> set (e # es). now c \<le> due_time x"
    by (auto simp: clock_inv_def)
  then have s: "sorted_wrt precedes ((fired @ [e]) @ es)" by simp
  have "\<forall>x \<in> set es. precedes e x" using s by (auto simp: sorted_wrt_append)
  then have 1: "\<forall>x \<in> set es. due_time e \<le> due_time x" by (auto simp: precedes_def)
  have 2: "\<forall>x \<in> set (fired @ [e]). due_time x \<le> due_time e" using fn pn by fastforce
  have 3: "sequence ` set ((fired @ [e]) @ es) = {..< next_sequence c}" using im by simp
  show ?thesis unfolding clock_inv_def c' using s 3 1 2 pn by auto
qed

lemma clock_run_inv:
  "clock_inv c fired \<Longrightarrow> clock_run c fired ops = Inr (c', fired') \<Longrightarrow>
     clock_inv c' fired' \<and> now c \<le> now c'"
proof (induction c fired ops rule: clock_run.induct)
  case (1 c fired)
  then show ?case by simp
next
  case (2 c fired d k ops)
  from "2.prems"(2) obtain c1 where s: "schedule d k c = Inr c1"
    and r: "clock_run c1 fired ops = Inr (c', fired')"
    by (auto split: sum.splits)
  from schedule_inv [OF "2.prems"(1) s] "2.IH" [OF s _ r] show ?case by simp
next
  case (3 c fired ops)
  show ?case
  proof (cases "advance c")
    case None
    with "3.prems" "3.IH"(1) show ?thesis by simp
  next
    case (Some a)
    obtain e c1 where a: "a = (e, c1)" by (cases a)
    with Some "3.prems"(2) have r: "clock_run c1 (fired @ [e]) ops = Inr (c', fired')" by simp
    from advance_inv [OF "3.prems"(1) Some [unfolded a]]
      "3.IH"(2) [OF Some a [symmetric] _ r] show ?thesis by simp
  qed
qed

lemma new_clock_inv: "clock_inv new_clock []"
  by (simp add: clock_inv_def new_clock_def)

lemma precedes_due: "sorted_wrt precedes xs \<Longrightarrow> sorted (map due_time xs)"
  by (induction xs) (auto simp: precedes_def)

lemma filter_insert_event:
  "sorted_wrt precedes xs \<Longrightarrow> \<forall>x \<in> set xs. sequence x < sequence e \<Longrightarrow>
     filter (\<lambda>x. due_time x = t) (insert_event e xs) =
       filter (\<lambda>x. due_time x = t) xs @ (if due_time e = t then [e] else [])"
proof (induction xs)
  case Nil
  then show ?case by simp
next
  case (Cons x xs)
  show ?case
  proof (cases "fires_before x e")
    case True
    with Cons show ?thesis by simp
  next
    case False
    with Cons.prems(2) have lt: "due_time e < due_time x"
      by (auto simp: fires_before_def)
    have "\<forall>y \<in> set (x # xs). due_time e < due_time y"
    proof
      fix y assume "y \<in> set (x # xs)"
      with Cons.prems(1) have "y = x \<or> precedes x y" by auto
      with lt show "due_time e < due_time y" by (auto simp: precedes_def)
    qed
    then have "due_time e = t \<Longrightarrow> filter (\<lambda>x. due_time x = t) (x # xs) = []"
      by (auto simp: filter_empty_conv)
    with False show ?thesis by auto
  qed
qed

lemma schedule_scheduled:
  assumes "scheduled c evs" and "0 \<le> d"
  shows "\<exists>c'. schedule d k c = Inr c' \<and> scheduled c' (evs @ [(d, k)])"
proof -
  let ?e = "\<lparr>due_time = now c + d, sequence = next_sequence c, continuation = k\<rparr>"
  let ?c = "c\<lparr>next_sequence := Suc (next_sequence c), pending := insert_event ?e (pending c)\<rparr>"
  from assms(2) have s: "schedule d k c = Inr ?c" by (simp add: schedule_def)
  from assms(1) have inv: "clock_inv c []" and n: "now c = 0"
    and m: "mset (map timed (pending c)) = mset evs"
    and f: "\<And>t. filter (\<lambda>x. fst x = t) (map timed (pending c)) = filter (\<lambda>x. fst x = t) evs"
    by (auto simp: scheduled_def)
  from inv have srt: "sorted_wrt precedes (pending c)" by (auto simp: clock_inv_def)
  have sq: "\<forall>x \<in> set (pending c). sequence x < sequence ?e"
    using clock_inv_sequence [OF inv] by simp
  have t: "timed ?e = (d, k)" using n by (simp add: timed_def)
  have "filter (\<lambda>x. fst x = t) (map timed (insert_event ?e (pending c))) =
          filter (\<lambda>x. fst x = t) (evs @ [(d, k)])" for t
  proof -
    have "filter (\<lambda>x. fst x = t) (map timed (insert_event ?e (pending c))) =
            map timed (filter (\<lambda>x. due_time x = t) (insert_event ?e (pending c)))"
      by (simp add: filter_map comp_def timed_def)
    also have "\<dots> = map timed (filter (\<lambda>x. due_time x = t) (pending c)
                       @ (if due_time ?e = t then [?e] else []))"
      by (simp only: filter_insert_event [OF srt sq])
    also have "\<dots> = filter (\<lambda>x. fst x = t) (map timed (pending c))
                       @ (if d = t then [(d, k)] else [])"
      using n t by (simp add: filter_map comp_def timed_def)
    finally show ?thesis by (simp add: f)
  qed
  moreover have "mset (map timed (insert_event ?e (pending c))) = mset (evs @ [(d, k)])"
    using m t by simp
  moreover have "clock_inv ?c [] \<and> now ?c = now c"
    using schedule_inv [OF inv s] .
  ultimately have "scheduled ?c (evs @ [(d, k)])"
    using n by (simp add: scheduled_def)
  with s show ?thesis by blast
qed

lemma schedule_phase:
  "scheduled c done \<Longrightarrow> \<forall>(d, k) \<in> set evs. 0 \<le> d \<Longrightarrow>
     \<exists>c'. clock_run c [] (map (\<lambda>(d, k). Schedule d k) evs @ ops) = clock_run c' [] ops
          \<and> scheduled c' (done @ evs)"
proof (induction evs arbitrary: c "done")
  case Nil
  then show ?case by auto
next
  case (Cons ev evs)
  obtain d k where ev: "ev = (d, k)" by (cases ev)
  with Cons.prems(2) have "0 \<le> d" by simp
  from schedule_scheduled [OF Cons.prems(1) this, of k]
  obtain c1 where s: "schedule d k c = Inr c1" and sc: "scheduled c1 (done @ [(d, k)])"
    by blast
  from Cons.IH [OF sc] Cons.prems(2)
  obtain c' where "clock_run c1 [] (map (\<lambda>(d, k). Schedule d k) evs @ ops) = clock_run c' [] ops"
    and "scheduled c' ((done @ [(d, k)]) @ evs)" by auto
  with s ev show ?case by auto
qed

lemma advance_phase:
  "length (pending c) = n \<Longrightarrow>
     \<exists>c'. clock_run c fired (replicate n Advance) = Inr (c', fired @ pending c) \<and> pending c' = []"
proof (induction n arbitrary: c fired)
  case 0
  then show ?case by simp
next
  case (Suc n)
  then obtain e es where p: "pending c = e # es" by (cases "pending c") auto
  let ?c = "c\<lparr>now := due_time e, pending := es\<rparr>"
  from p have a: "advance c = Some (e, ?c)" by (simp add: advance_def)
  from Suc.prems p have "length (pending ?c) = n" by simp
  from Suc.IH [OF this, of "fired @ [e]"] a p show ?case by simp
qed

lemma burst_fires_sorted:
  assumes "\<forall>(d, k) \<in> set evs. 0 \<le> d"
  shows "\<exists>c fired. clock_run new_clock [] (burst evs) = Inr (c, fired) \<and> pending c = []
           \<and> map timed fired = sort_key fst evs"
proof -
  have "scheduled (new_clock :: 'a clock) []"
    by (simp add: scheduled_def new_clock_inv) (simp add: new_clock_def)
  from schedule_phase [OF this assms, of "replicate (length evs) Advance"]
  obtain c1 :: "'a clock" where r: "clock_run new_clock [] (burst evs) = clock_run c1 [] (replicate (length evs) Advance)"
    and sc: "scheduled c1 evs" by (auto simp: burst_def)
  from sc have m: "mset (map timed (pending c1)) = mset evs"
    and f: "\<And>t. filter (\<lambda>x. fst x = t) (map timed (pending c1)) = filter (\<lambda>x. fst x = t) evs"
    and srt: "sorted_wrt precedes (pending c1)"
    by (auto simp: scheduled_def clock_inv_def)
  from m have "length (pending c1) = length evs"
    by (metis length_map size_mset)
  from advance_phase [OF this, of "[]"]
  obtain c' where a: "clock_run c1 [] (replicate (length evs) Advance) = Inr (c', pending c1)"
    and e: "pending c' = []" by auto
  have "sorted (map fst (map timed (pending c1)))"
    using precedes_due [OF srt] by (simp add: comp_def timed_def)
  moreover have "filter (\<lambda>x. fst k = fst x) (map timed (pending c1)) =
                 filter (\<lambda>x. fst k = fst x) evs" for k
  proof -
    have "(\<lambda>x :: real \<times> 'a. fst k = fst x) = (\<lambda>x. fst x = fst k)" by auto
    with f [of "fst k"] show ?thesis by simp
  qed
  ultimately have "sort_key fst evs = map timed (pending c1)"
    using m by (intro properties_for_sort_key)
  with r a e show ?thesis by auto
qed

section \<open>What every step of a run keeps\<close>

text \<open>
  The engine's operations on a model keep the clock and the pools sound and never touch
  the setup of the model; so does firing an event, and so does a whole run.
\<close>

lemma with_env_schedule:
  assumes "with_env m (schedule d k (env m)) = Inr m'"
  shows "\<exists>c'. schedule d k (env m) = Inr c' \<and> m' = m\<lparr>env := c'\<rparr>"
  using assms by (auto simp: with_env_def split: sum.splits)

lemma pools_inv_env: "pools_inv cfg (m\<lparr>env := c\<rparr>) = pools_inv cfg m"
  by (simp add: pools_inv_def)

lemma schedule_model_inv:
  assumes "with_env m (schedule d k (env m)) = Inr m'" and "clock_inv (env m) f"
  shows "clock_inv (env m') f \<and> now (env m') = now (env m) \<and> resources m' = resources m
         \<and> queing_times m' = queing_times m \<and> same_setup m m'"
proof -
  from with_env_schedule [OF assms(1)]
  obtain c' where s: "schedule d k (env m) = Inr c'" and m': "m' = m\<lparr>env := c'\<rparr>" by blast
  from schedule_inv [OF assms(2) s] m' show ?thesis by (simp add: same_setup_def)
qed

lemma resume_granted_inv:
  assumes "resume_granted m g = Inr m'" and "clock_inv (env m) f"
  shows "clock_inv (env m') f \<and> now (env m') = now (env m) \<and> resources m' = resources m
         \<and> queing_times m' = queing_times m \<and> same_setup m m'"
proof (cases g)
  case None
  with assms show ?thesis by (simp add: resume_granted_def same_setup_def)
next
  case (Some k)
  with assms(1) have w: "with_env m (schedule 0 k (env m)) = Inr m'"
    by (simp add: resume_granted_def)
  from schedule_model_inv [OF w assms(2)] show ?thesis .
qed

lemma pools_inv_update:
  assumes "pools_inv cfg m" and "map_of (resources m) s = Some p"
    and "pool_ok p'" and "capacity p' = capacity p"
  shows "pools_inv cfg (m\<lparr>resources := AList.update s p' (resources m)\<rparr>)"
proof -
  from assms(2) have "s \<in> set (map fst (resources m))"
    by (metis map_of_eq_None_iff option.distinct(1) set_map)
  with assms show ?thesis by (auto simp: pools_inv_def update_conv' update_keys)
qed

lemma pools_inv_resources: "resources m' = resources m \<Longrightarrow> pools_inv cfg m' = pools_inv cfg m"
  by (simp add: pools_inv_def)

lemma pool_update_inv:
  assumes g: "resume_granted (m\<lparr>resources := AList.update s p' (resources m)\<rparr>) g = Inr m'"
    and p: "map_of (resources m) s = Some p" and ok: "pool_ok p'" "capacity p' = capacity p"
    and ci: "clock_inv (env m) f" and pi: "pools_inv cfg m"
  shows "clock_inv (env m') f \<and> pools_inv cfg m' \<and> now (env m') = now (env m) \<and> same_setup m m'"
proof -
  let ?m = "m\<lparr>resources := AList.update s p' (resources m)\<rparr>"
  from pools_inv_update [OF pi p ok] have 1: "pools_inv cfg ?m" .
  from ci have "clock_inv (env ?m) f" by simp
  from resume_granted_inv [OF g this] 1 pools_inv_resources [of m' ?m cfg]
  show ?thesis by (simp add: same_setup_def)
qed

lemma perform_inv:
  assumes "perform eff m = Inr m'" and "clock_inv (env m) f" and "pools_inv cfg m"
  shows "clock_inv (env m') f \<and> pools_inv cfg m' \<and> now (env m') = now (env m) \<and> same_setup m m'"
proof (cases eff)
  case (Process k)
  with assms(1) have w: "with_env m (schedule 0 k (env m)) = Inr m'" by simp
  from schedule_model_inv [OF w assms(2)] assms(3) pools_inv_resources [of m' m cfg]
  show ?thesis by simp
next
  case (Timeout d k)
  with assms(1) have w: "with_env m (schedule d k (env m)) = Inr m'" by simp
  from schedule_model_inv [OF w assms(2)] assms(3) pools_inv_resources [of m' m cfg]
  show ?thesis by simp
next
  case (Request s k)
  with assms(1) obtain p p' g where p: "map_of (resources m) s = Some p"
    and r: "request k p = (p', g)"
    and g: "resume_granted (m\<lparr>resources := AList.update s p' (resources m)\<rparr>) g = Inr m'"
    by (auto split: option.splits prod.splits)
  from assms(3) p have "pool_ok p" by (simp add: pools_inv_def)
  from request_ok [OF this r] have "pool_ok p'" "capacity p' = capacity p" by simp_all
  from pool_update_inv [OF g p this assms(2,3)] show ?thesis .
next
  case (Release s)
  with assms(1) obtain p p' g where p: "map_of (resources m) s = Some p"
    and r: "release p = Inr (p', g)"
    and g: "resume_granted (m\<lparr>resources := AList.update s p' (resources m)\<rparr>) g = Inr m'"
    by (auto split: option.splits prod.splits sum.splits)
  from assms(3) p have "pool_ok p" by (simp add: pools_inv_def)
  from release_ok [OF this r] have "pool_ok p'" "capacity p' = capacity p" by simp_all
  from pool_update_inv [OF g p this assms(2,3)] show ?thesis .
next
  case (Append r)
  with assms show ?thesis by (auto simp: pools_inv_def same_setup_def)
qed

lemma same_setup_refl: "same_setup m m"
  by (simp add: same_setup_def)

lemma same_setup_trans: "same_setup a b \<Longrightarrow> same_setup b c \<Longrightarrow> same_setup a c"
  by (simp add: same_setup_def)

lemma perform_all_inv:
  "perform_all effs m = Inr m' \<Longrightarrow> clock_inv (env m) f \<Longrightarrow> pools_inv cfg m \<Longrightarrow>
     clock_inv (env m') f \<and> pools_inv cfg m' \<and> now (env m') = now (env m) \<and> same_setup m m'"
proof (induction effs arbitrary: m)
  case Nil
  then show ?case by (simp add: same_setup_refl)
next
  case (Cons eff effs)
  from Cons.prems(1) obtain m1 where p: "perform eff m = Inr m1"
    and r: "perform_all effs m1 = Inr m'"
    by (auto split: sum.splits)
  from perform_inv [OF p Cons.prems(2,3)]
  have 1: "clock_inv (env m1) f" "pools_inv cfg m1" "now (env m1) = now (env m)" "same_setup m m1"
    by simp_all
  from Cons.IH [OF r 1(1,2)] 1(3,4) show ?case
    by (auto intro: same_setup_trans)
qed

lemma fire_inv:
  assumes "advance (env m) = Some (e, c)" and "fire cfg rnd e c m pos = Inr (m', pos')"
    and "clock_inv (env m) f" and "pools_inv cfg m"
  shows "clock_inv (env m') (f @ [e]) \<and> pools_inv cfg m' \<and> now (env m) \<le> now (env m')
         \<and> now (env m') = due_time e \<and> same_setup m m'"
proof -
  from advance_inv [OF assms(3,1)]
  have c: "clock_inv c (f @ [e])" "now (env m) \<le> now c" "now c = due_time e" by simp_all
  let ?m = "m\<lparr>env := c\<rparr>"
  from assms(2) obtain effs where "perform_all effs ?m = Inr m'"
    by (auto simp: fire_def Let_def split: prod.splits sum.splits option.splits)
  from perform_all_inv [OF this, of "f @ [e]" cfg] c assms(4)
  show ?thesis by (simp add: pools_inv_env same_setup_def)
qed

lemma pending_after_horizon:
  assumes "clock_inv c f" and "pending c = e # es" and "horizon < due_time e"
  shows "\<forall>x \<in> set (pending c). horizon < due_time x"
proof
  fix x assume "x \<in> set (pending c)"
  with assms(2) have "x = e \<or> x \<in> set es" by auto
  moreover from assms(1,2) have "\<forall>y \<in> set es. precedes e y"
    by (auto simp: clock_inv_def sorted_wrt_append)
  ultimately have "due_time e \<le> due_time x" by (auto simp: precedes_def)
  with assms(3) show "horizon < due_time x" by simp
qed

lemma run_until_inv:
  assumes ret: "run_until cfg rnd horizon fired m pos = Some res"
    and "clock_inv (env m) (rev fired)" and "pools_inv cfg m"
    and "\<forall>e \<in> set fired. due_time e \<le> horizon"
  shows "run_post cfg horizon fired m res"
proof -
  have "clock_inv (env m) (rev fired) \<and> pools_inv cfg m \<and> (\<forall>e \<in> set fired. due_time e \<le> horizon)
          \<longrightarrow> run_post cfg horizon fired m res"
  proof (rule run_until.raw_induct
      [where P = "\<lambda>cfg rnd horizon fired m pos res.
         clock_inv (env m) (rev fired) \<and> pools_inv cfg m \<and> (\<forall>e \<in> set fired. due_time e \<le> horizon)
          \<longrightarrow> run_post cfg horizon fired m res", OF _ ret])
    fix f cfg rnd horizon fired m pos res
    assume IH: "\<And>cfg rnd horizon fired m pos res.
        f cfg rnd horizon fired m pos = Some res \<Longrightarrow>
        clock_inv (env m) (rev fired) \<and> pools_inv cfg m \<and> (\<forall>e \<in> set fired. due_time e \<le> horizon)
          \<longrightarrow> run_post cfg horizon fired m res"
      and eq: "(case advance (env m) of
          None \<Rightarrow> Some (fired, Inr (m, pos))
        | Some (e, c) \<Rightarrow>
            if due_time e \<le> horizon
            then (case fire cfg rnd e c m pos of
                    Inl x \<Rightarrow> Some (e # fired, Inl x)
                  | Inr (m', pos') \<Rightarrow> f cfg rnd horizon (e # fired) m' pos')
            else Some (fired, Inr (m, pos))) = Some res"
    show "clock_inv (env m) (rev fired) \<and> pools_inv cfg m \<and> (\<forall>e \<in> set fired. due_time e \<le> horizon)
          \<longrightarrow> run_post cfg horizon fired m res"
    proof
      assume pre: "clock_inv (env m) (rev fired) \<and> pools_inv cfg m \<and> (\<forall>e \<in> set fired. due_time e \<le> horizon)"
      then have ci: "clock_inv (env m) (rev fired)" and pi: "pools_inv cfg m"
        and du: "\<forall>e \<in> set fired. due_time e \<le> horizon" by simp_all
      from ci have srt: "sorted_wrt precedes (rev fired)"
        by (auto simp: clock_inv_def sorted_wrt_append)
      show "run_post cfg horizon fired m res"
      proof (cases "advance (env m)")
        case None
        then have "pending (env m) = []" by (auto simp: advance_def split: list.splits)
        with None eq ci pi du srt show ?thesis
          by (auto simp: run_post_def run_result_ok_def same_setup_refl)
      next
        case (Some a)
        obtain e c where a: "a = (e, c)" by (cases a)
        from Some a have pe: "\<exists>es. pending (env m) = e # es"
          by (auto simp: advance_def split: list.splits)
        show ?thesis
        proof (cases "due_time e \<le> horizon")
          case False
          with pe pending_after_horizon [OF ci] have "\<forall>x \<in> set (pending (env m)). horizon < due_time x"
            by auto
          with Some a False eq ci pi du srt show ?thesis
            by (auto simp: run_post_def run_result_ok_def same_setup_refl)
        next
          case True
          from advance_inv [OF ci Some [unfolded a]] have "clock_inv c (rev (e # fired))" by simp
          then have srt': "sorted_wrt precedes (rev (e # fired))"
            by (auto simp: clock_inv_def sorted_wrt_append)
          show ?thesis
          proof (cases "fire cfg rnd e c m pos")
            case (Inl x)
            with Some a True eq have "res = (e # fired, Inl x)" by simp
            with srt' du True show ?thesis
              by (auto simp: run_post_def run_result_ok_def)
          next
            case (Inr s)
            obtain m' pos' where s: "s = (m', pos')" by (cases s)
            with Some a True eq Inr have r: "f cfg rnd horizon (e # fired) m' pos' = Some res"
              by simp
            from fire_inv [OF Some [unfolded a] Inr [unfolded s] ci pi]
            have 1: "clock_inv (env m') (rev (e # fired))" "pools_inv cfg m'"
              "now (env m) \<le> now (env m')" "same_setup m m'" by simp_all
            from IH [OF r] 1(1,2) du True have "run_post cfg horizon (e # fired) m' res" by simp
            with 1(3,4) show ?thesis
              by (auto simp: run_post_def split: sum.splits intro: same_setup_trans)
          qed
        qed
      qed
    qed
  qed
  with assms(2-4) show ?thesis by simp
qed

lemma new_pools4:
  "new_pools [a, b, c, d] = Inr ps \<Longrightarrow>
     0 < a \<and> 0 < b \<and> 0 < c \<and> 0 < d \<and>
     ps = [\<lparr>capacity = a, in_use = 0, wait_queue = []\<rparr>, \<lparr>capacity = b, in_use = 0, wait_queue = []\<rparr>,
           \<lparr>capacity = c, in_use = 0, wait_queue = []\<rparr>, \<lparr>capacity = d, in_use = 0, wait_queue = []\<rparr>]"
  by (auto simp: new_pool_def split: if_splits)

lemma ED_Model_init_inv:
  assumes "ED_Model_init cfg run csv = Inr m"
  shows "clock_inv (env m) [] \<and> pools_inv cfg m \<and> queing_times m = []
         \<and> results_csv_filename m = csv \<and> run_number m = run \<and> now (env m) = 0"
proof -
  from assms obtain ps where ps: "new_pools [number_of_receptionists cfg, number_of_nurses cfg,
                      number_of_ed_doctors cfg, number_of_acu_doctors cfg] = Inr ps"
    and m: "m = \<lparr>env = new_clock, resources = zip SERVICES ps,
                  service_times = zip SERVICES [mean_register cfg, mean_triage cfg,
                                                mean_ed_assess cfg, mean_acu_assess cfg],
                  run_number = run, results_csv_filename = csv, queing_times = []\<rparr>"
    by (auto simp: ED_Model_init_def Let_def split: sum.splits)
  from new_pools4 [OF ps] have "pools_inv cfg m"
    unfolding m pools_inv_def staffing_of_def SERVICES_def
    by (simp add: pool_ok_def)
  with m show ?thesis by (simp add: new_clock_inv) (simp add: new_clock_def)
qed

lemma start_arrivals_inv:
  assumes "start_arrivals m = Inr m'" and "clock_inv (env m) f"
  shows "clock_inv (env m') f \<and> now (env m') = now (env m) \<and> resources m' = resources m
         \<and> queing_times m' = queing_times m \<and> same_setup m m'"
  using schedule_model_inv [OF assms(1) [unfolded start_arrivals_def] assms(2)] .

lemma simulate_inv:
  assumes "ED_Model_init cfg run csv = Inr m" and "simulate cfg rnd m pos = Some res"
  shows "run_result_ok cfg (sim_duration cfg + warm_up_duration cfg) res \<and>
         (case snd res of Inl x \<Rightarrow> True
          | Inr (m', pos') \<Rightarrow> 0 \<le> now (env m') \<and> same_setup m m')"
proof (cases "start_arrivals m")
  case (Inl x)
  with assms(2) show ?thesis by (auto simp: simulate_def run_result_ok_def)
next
  case (Inr m1)
  from ED_Model_init_inv [OF assms(1)]
  have i: "clock_inv (env m) []" "pools_inv cfg m" "now (env m) = 0" by simp_all
  from start_arrivals_inv [OF Inr i(1)] i(2,3) pools_inv_resources [of m1 m cfg]
  have 1: "clock_inv (env m1) (rev [])" "pools_inv cfg m1" "now (env m1) = 0" "same_setup m m1"
    by simp_all
  from Inr assms(2)
  have "run_until cfg rnd (sim_duration cfg + warm_up_duration cfg) [] m1 pos = Some res"
    by (simp add: simulate_def)
  from run_until_inv [OF this 1(1,2)] 1(3,4) show ?thesis
    by (auto simp: run_post_def split: sum.splits intro: same_setup_trans)
qed

text \<open>
  The run loop, for a horizon: it stops at once when nothing is pending or the earliest
  pending event is due after the horizon, and fires the earliest pending event otherwise.
  A run of \<^verbatim>\<open>ED_Model.run\<close> that returns has fired only events due at or before
  \<^verbatim>\<open>g.sim_duration + g.warm_up_duration\<close>, leaves only events due after it, and has
  lost no event: the sequence numbers of the fired and the pending events are all the
  numbers given out.
\<close>

lemma run_fires_up_to_horizon:
  "(ED_Model_init cfg run csv = Inr m0 \<and> simulate cfg rnd m0 pos = Some (fired, Inr (m, pos')) \<longrightarrow>
      (\<forall>e \<in> set fired. due_time e \<le> sim_duration cfg + warm_up_duration cfg) \<and>
      (\<forall>e \<in> set (pending (env m)). sim_duration cfg + warm_up_duration cfg < due_time e) \<and>
      sequence ` (set fired \<union> set (pending (env m))) = {..< next_sequence (env m)})
   \<and> (pending (env m) = [] \<or> horizon < due_time (hd (pending (env m))) \<longrightarrow>
      run_until cfg rnd horizon fired m pos = Some (fired, Inr (m, pos)))
   \<and> (pending (env m) = e # es \<and> due_time e \<le> horizon \<longrightarrow>
      run_until cfg rnd horizon fired m pos =
        (case fire cfg rnd e (env m\<lparr>now := due_time e, pending := es\<rparr>) m pos of
           Inl x \<Rightarrow> Some (e # fired, Inl x)
         | Inr (m', pos') \<Rightarrow> run_until cfg rnd horizon (e # fired) m' pos'))"
proof (rule conjI [OF _ conjI]; rule impI)
  assume a: "ED_Model_init cfg run csv = Inr m0 \<and> simulate cfg rnd m0 pos = Some (fired, Inr (m, pos'))"
  from simulate_inv [of cfg run csv m0 rnd pos "(fired, Inr (m, pos'))"] a
  have r: "run_result_ok cfg (sim_duration cfg + warm_up_duration cfg) (fired, Inr (m, pos'))"
    by simp
  then have "clock_inv (env m) (rev fired)" by (simp add: run_result_ok_def)
  then have "sequence ` (set fired \<union> set (pending (env m))) = {..< next_sequence (env m)}"
    by (simp add: clock_inv_def)
  with r show "(\<forall>e \<in> set fired. due_time e \<le> sim_duration cfg + warm_up_duration cfg) \<and>
      (\<forall>e \<in> set (pending (env m)). sim_duration cfg + warm_up_duration cfg < due_time e) \<and>
      sequence ` (set fired \<union> set (pending (env m))) = {..< next_sequence (env m)}"
    by (simp add: run_result_ok_def)
next
  assume "pending (env m) = [] \<or> horizon < due_time (hd (pending (env m)))"
  then show "run_until cfg rnd horizon fired m pos = Some (fired, Inr (m, pos))"
    by (subst run_until.simps) (auto simp: advance_def split: list.splits)
next
  assume "pending (env m) = e # es \<and> due_time e \<le> horizon"
  then show "run_until cfg rnd horizon fired m pos =
        (case fire cfg rnd e (env m\<lparr>now := due_time e, pending := es\<rparr>) m pos of
           Inl x \<Rightarrow> Some (e # fired, Inl x)
         | Inr (m', pos') \<Rightarrow> run_until cfg rnd horizon (e # fired) m' pos')"
    by (subst run_until.simps) (simp add: advance_def)
qed

section \<open>The states a run goes through\<close>

text \<open>
  What the effects of a run do to one pool is what \<open>pool_run\<close> does with the requests and
  releases among them; every state returned by \<open>run_until\<close> is reached by \<open>run_steps\<close>;
  and \<open>run_steps\<close> keeps the clock and the pools sound.
\<close>

lemma pool_ops_append: "pool_ops s (xs @ ys) = pool_ops s xs @ pool_ops s ys"
  by (induction s xs rule: pool_ops.induct) auto

lemma pool_run_append:
  "pool_run p g (xs @ ys) =
     (case pool_run p g xs of Inl x \<Rightarrow> Inl x | Inr (p', g') \<Rightarrow> pool_run p' g' ys)"
  by (induction p g xs rule: pool_run.induct) (auto split: prod.splits option.splits sum.splits)

lemma resume_granted_resources:
  "resume_granted m g = Inr m' \<Longrightarrow> resources m' = resources m"
  by (auto simp: resume_granted_def with_env_def split: option.splits sum.splits)

lemma perform_pool:
  assumes "perform eff m = Inr m'" and "map_of (resources m) s = Some p"
  shows "\<exists>p' g'. map_of (resources m') s = Some p' \<and> pool_run p g (pool_ops s [eff]) = Inr (p', g')"
proof (cases eff)
  case (Process k)
  with assms show ?thesis by (auto simp: with_env_def split: sum.splits)
next
  case (Timeout d k)
  with assms show ?thesis by (auto simp: with_env_def split: sum.splits)
next
  case (Request s' k)
  with assms(1) obtain q q' gr where q: "map_of (resources m) s' = Some q"
    and r: "request k q = (q', gr)"
    and g: "resume_granted (m\<lparr>resources := AList.update s' q' (resources m)\<rparr>) gr = Inr m'"
    by (auto split: option.splits prod.splits)
  from resume_granted_resources [OF g]
  have res: "resources m' = AList.update s' q' (resources m)" by simp
  show ?thesis
  proof (cases "s' = s")
    case True
    with q assms(2) have "q = p" by simp
    with True Request r res show ?thesis by (cases gr) (simp_all add: update_conv')
  next
    case False
    with Request res assms(2) show ?thesis by (simp add: update_conv')
  qed
next
  case (Release s')
  with assms(1) obtain q q' gr where q: "map_of (resources m) s' = Some q"
    and r: "release q = Inr (q', gr)"
    and g: "resume_granted (m\<lparr>resources := AList.update s' q' (resources m)\<rparr>) gr = Inr m'"
    by (auto split: option.splits prod.splits sum.splits)
  from resume_granted_resources [OF g]
  have res: "resources m' = AList.update s' q' (resources m)" by simp
  show ?thesis
  proof (cases "s' = s")
    case True
    with q assms(2) have "q = p" by simp
    with True Release r res show ?thesis by (cases gr) (simp_all add: update_conv')
  next
    case False
    with Release res assms(2) show ?thesis by (simp add: update_conv')
  qed
next
  case (Append r)
  with assms show ?thesis by auto
qed

lemma perform_all_pool:
  "perform_all effs m = Inr m' \<Longrightarrow> map_of (resources m) s = Some p \<Longrightarrow>
     \<exists>p' g'. map_of (resources m') s = Some p' \<and> pool_run p g (pool_ops s effs) = Inr (p', g')"
proof (induction effs arbitrary: m p g)
  case Nil
  then show ?case by simp
next
  case (Cons eff effs)
  from Cons.prems(1) obtain m1 where p: "perform eff m = Inr m1"
    and r: "perform_all effs m1 = Inr m'"
    by (auto split: sum.splits)
  from perform_pool [OF p Cons.prems(2), of g]
  obtain p1 g1 where 1: "map_of (resources m1) s = Some p1"
    and 2: "pool_run p g (pool_ops s [eff]) = Inr (p1, g1)" by blast
  from Cons.IH [OF r 1, of g1]
  obtain p' g' where 3: "map_of (resources m') s = Some p'"
    and 4: "pool_run p1 g1 (pool_ops s effs) = Inr (p', g')" by blast
  have "pool_ops s (eff # effs) = pool_ops s [eff] @ pool_ops s effs"
    using pool_ops_append [of s "[eff]" effs] by simp
  with 2 4 have "pool_run p g (pool_ops s (eff # effs)) = Inr (p', g')"
    by (simp add: pool_run_append)
  with 3 show ?case by blast
qed

lemma fire_pool:
  assumes "fire cfg rnd e c m pos = Inr (m', pos')" and "map_of (resources m) s = Some p"
  shows "\<exists>p' g'. map_of (resources m') s = Some p' \<and>
           pool_run p g (pool_ops s (fst (resume cfg rnd (m\<lparr>env := c\<rparr>) pos (continuation e))))
             = Inr (p', g')"
proof -
  from assms(1) have "perform_all (fst (resume cfg rnd (m\<lparr>env := c\<rparr>) pos (continuation e)))
      (m\<lparr>env := c\<rparr>) = Inr m'"
    by (auto simp: fire_def Let_def split: prod.splits sum.splits option.splits)
  from perform_all_pool [OF this, of s p g] assms(2) show ?thesis by simp
qed

lemma run_steps_pool:
  "run_steps cfg rnd s1 effs s2 \<Longrightarrow> map_of (resources (fst s1)) s = Some p \<Longrightarrow>
     \<exists>p' g'. map_of (resources (fst s2)) s = Some p' \<and> pool_run p g (pool_ops s effs) = Inr (p', g')"
proof (induction arbitrary: p g rule: run_steps.induct)
  case (stay cfg rnd st)
  then show ?case by simp
next
  case (step m e c cfg rnd pos s1 effs s2)
  obtain m1 pos1 where s1: "s1 = (m1, pos1)" by (cases s1)
  from step.prems have "map_of (resources m) s = Some p" by simp
  from fire_pool [OF step.hyps(2) [unfolded s1] this, of g]
  obtain p1 g1 where 1: "map_of (resources m1) s = Some p1"
    and 2: "pool_run p g (pool_ops s (fst (resume cfg rnd (m\<lparr>env := c\<rparr>) pos (continuation e))))
             = Inr (p1, g1)" by blast
  from step.IH [of p1 g1] 1 s1
  obtain p' g' where 3: "map_of (resources (fst s2)) s = Some p'"
    and 4: "pool_run p1 g1 (pool_ops s effs) = Inr (p', g')" by auto
  from 2 4 have "pool_run p g
      (pool_ops s (fst (resume cfg rnd (m\<lparr>env := c\<rparr>) pos (continuation e)) @ effs)) = Inr (p', g')"
    by (simp add: pool_ops_append pool_run_append)
  with 3 show ?case by blast
qed

lemma run_until_steps:
  assumes ret: "run_until cfg rnd horizon fired m pos = Some res"
  shows "\<forall>s. snd res = Inr s \<longrightarrow> (\<exists>effs. run_steps cfg rnd (m, pos) effs s)"
proof (rule run_until.raw_induct
    [where P = "\<lambda>cfg rnd horizon fired m pos res.
       \<forall>s. snd res = Inr s \<longrightarrow> (\<exists>effs. run_steps cfg rnd (m, pos) effs s)", OF _ ret])
  fix f cfg rnd horizon fired m pos res
  assume IH: "\<And>cfg rnd horizon fired m pos res.
      f cfg rnd horizon fired m pos = Some res \<Longrightarrow>
      \<forall>s. snd res = Inr s \<longrightarrow> (\<exists>effs. run_steps cfg rnd (m, pos) effs s)"
    and eq: "(case advance (env m) of
        None \<Rightarrow> Some (fired, Inr (m, pos))
      | Some (e, c) \<Rightarrow>
          if due_time e \<le> horizon
          then (case fire cfg rnd e c m pos of
                  Inl x \<Rightarrow> Some (e # fired, Inl x)
                | Inr (m', pos') \<Rightarrow> f cfg rnd horizon (e # fired) m' pos')
          else Some (fired, Inr (m, pos))) = Some res"
  show "\<forall>s. snd res = Inr s \<longrightarrow> (\<exists>effs. run_steps cfg rnd (m, pos) effs s)"
  proof (intro allI impI)
    fix s assume s: "snd res = Inr s"
    show "\<exists>effs. run_steps cfg rnd (m, pos) effs s"
    proof (cases "advance (env m)")
      case None
      with eq s have "s = (m, pos)" by auto
      then show ?thesis by (auto intro: run_steps.stay)
    next
      case (Some a)
      obtain e c where a: "a = (e, c)" by (cases a)
      show ?thesis
      proof (cases "due_time e \<le> horizon")
        case False
        with Some a eq s have "s = (m, pos)" by auto
        then show ?thesis by (auto intro: run_steps.stay)
      next
        case True
        show ?thesis
        proof (cases "fire cfg rnd e c m pos")
          case (Inl x)
          with Some a True eq s show ?thesis by auto
        next
          case (Inr s1)
          obtain m1 pos1 where s1: "s1 = (m1, pos1)" by (cases s1)
          with Some a True eq Inr have "f cfg rnd horizon (e # fired) m1 pos1 = Some res" by simp
          from IH [OF this] s obtain effs where "run_steps cfg rnd (m1, pos1) effs s" by blast
          from run_steps.step [OF Some [unfolded a] Inr [unfolded s1] this]
          show ?thesis by blast
        qed
      qed
    qed
  qed
qed

lemma run_steps_inv:
  "run_steps cfg rnd s1 effs s2 \<Longrightarrow> clock_inv (env (fst s1)) f \<Longrightarrow> pools_inv cfg (fst s1) \<Longrightarrow>
     (\<exists>f'. clock_inv (env (fst s2)) f') \<and> pools_inv cfg (fst s2) \<and>
     now (env (fst s1)) \<le> now (env (fst s2)) \<and> same_setup (fst s1) (fst s2)"
proof (induction arbitrary: f rule: run_steps.induct)
  case (stay cfg rnd s)
  then show ?case by (auto simp: same_setup_refl)
next
  case (step m e c cfg rnd pos s1 effs s2)
  obtain m1 pos1 where s1: "s1 = (m1, pos1)" by (cases s1)
  from step.prems have ci: "clock_inv (env m) f" and pi: "pools_inv cfg m" by simp_all
  from fire_inv [OF step.hyps(1) step.hyps(2) [unfolded s1] ci pi]
  have 1: "clock_inv (env m1) (f @ [e])" "pools_inv cfg m1" "now (env m) \<le> now (env m1)"
    "same_setup m m1" by simp_all
  from step.IH [of "f @ [e]"] 1(1,2) s1
  have "(\<exists>f'. clock_inv (env (fst s2)) f') \<and> pools_inv cfg (fst s2) \<and>
     now (env m1) \<le> now (env (fst s2)) \<and> same_setup m1 (fst s2)" by simp
  with 1(3,4) show ?case by (auto intro: same_setup_trans)
qed

lemma start_run_inv:
  assumes "ED_Model_init cfg run csv = Inr m0" and "start_arrivals m0 = Inr m1"
  shows "clock_inv (env m1) [] \<and> pools_inv cfg m1 \<and> resources m1 = resources m0"
proof -
  from ED_Model_init_inv [OF assms(1)]
  have i: "clock_inv (env m0) []" "pools_inv cfg m0" by simp_all
  from start_arrivals_inv [OF assms(2) i(1)] i(2) pools_inv_resources [of m1 m0 cfg]
  show ?thesis by simp
qed

section \<open>The rows a run records\<close>

text \<open>
  Every resumption of a process whose patient has the keys of its stage produces effects
  whose patients have the keys of theirs; the engine moves processes between the event
  queue and the wait queues and changes none. So every row that a run started from
  \<^verbatim>\<open>ED_Model.__init__\<close> has recorded has the eight keys of \<open>exit_keys\<close>, in this order,
  and the frame made of these rows has eight cells in every row.
\<close>

lemma keys_set_queue_time:
  "map fst (queue_times (set_queue_time k v p)) = keys_with k (map fst (queue_times p))"
  by (simp add: set_queue_time_def keys_with_def update_keys image_iff)

lemma keys_with_steps:
  "keys_with ''ExitTime'' (keys_with ''Registration'' arrival_keys) =
     arrival_keys @ [''Registration'', ''ExitTime'']"
  "keys_with ''ExitTime'' (keys_with ''Triage'' (arrival_keys @ [''Registration'', ''ExitTime''])) =
     exit_keys"
  "keys_with ''ExitTime'' (keys_with ''ED_Assessment'' exit_keys) = exit_keys"
  "keys_with ''ExitTime'' (keys_with ''ACU_Assessment'' exit_keys) = exit_keys"
  by (simp_all add: keys_with_def arrival_keys_def exit_keys_def)

lemma about_to_next:
  assumes "about_to ks (service # rest)"
  shows "about_to (keys_with ''ExitTime'' (keys_with service ks)) rest"
proof -
  from assms obtain t where t: "t = ''ED_Assessment'' \<or> t = ''ACU_Assessment''"
    and c: "service = ''Registration'' \<and> rest = [''Triage'', t] \<and> ks = arrival_keys \<or>
        service = ''Triage'' \<and> rest = [t] \<and> ks = arrival_keys @ [''Registration'', ''ExitTime''] \<or>
        service = t \<and> rest = [] \<and> ks = exit_keys"
    unfolding about_to_def by blast
  from c consider
      (reg) "service = ''Registration''" "rest = [''Triage'', t]" "ks = arrival_keys"
    | (tri) "service = ''Triage''" "rest = [t]" "ks = arrival_keys @ [''Registration'', ''ExitTime'']"
    | (last) "service = t" "rest = []" "ks = exit_keys"
    by blast
  then show ?thesis
  proof cases
    case reg
    with t show ?thesis unfolding about_to_def by (simp only: keys_with_steps) blast
  next
    case tri
    with t show ?thesis unfolding about_to_def by (simp only: keys_with_steps) blast
  next
    case last
    with t have "keys_with ''ExitTime'' (keys_with service ks) = exit_keys"
      by (auto simp only: keys_with_steps)
    with last show ?thesis unfolding about_to_def by simp
  qed
qed

lemma sample_and_hold_ok:
  assumes "\<forall>eff \<in> set earlier. effect_ok eff" and "\<forall>eff \<in> set cleanup. effect_ok eff"
    and "proc_ok k"
  shows "\<forall>eff \<in> set (fst (sample_and_hold rnd pos mean earlier cleanup k)). effect_ok eff"
  using assms by (auto simp: sample_and_hold_def Let_def split: sum.splits)

lemma journey_loop_ok:
  assumes "about_to (map fst (queue_times p)) todo"
  shows "\<forall>eff \<in> set (journey_loop cfg m todo p). effect_ok eff"
proof (cases todo)
  case Nil
  with assms show ?thesis by (auto simp: journey_loop_def about_to_def)
next
  case (Cons service rest)
  with assms show ?thesis by (simp add: journey_loop_def do_service_begin_def Let_def)
qed

lemma resume_ok:
  assumes "proc_ok k"
  shows "\<forall>eff \<in> set (fst (resume cfg rnd m pos k)). effect_ok eff"
proof (cases k)
  case (Arrivals n)
  let ?p = "set_queue_time ''ArrivalTime'' (now (env m))
      (set_queue_time ''run_number'' (real (run_number m))
        (ED_Patient_init n (prob_acu cfg) (rnd pos)))"
  have "map fst (queue_times ?p) = arrival_keys"
    by (simp add: keys_set_queue_time) (simp add: ED_Patient_init_def keys_with_def arrival_keys_def)
  moreover have "\<exists>t. (t = ''ED_Assessment'' \<or> t = ''ACU_Assessment'') \<and>
      process_services ?p = [''Registration'', ''Triage'', t]"
    by (simp add: process_services_def SERVICES_def)
  ultimately have "proc_ok (Journey ?p)" by (auto simp: about_to_def)
  then have "\<forall>eff \<in> set (fst (sample_and_hold rnd (Suc pos) (ed_inter cfg) [Process (Journey ?p)] []
      (Arrivals (Suc n)))). effect_ok eff"
    by (intro sample_and_hold_ok) simp_all
  with Arrivals show ?thesis by (simp add: generate_ed_arrivals_def Let_def)
next
  case (Journey p)
  with assms journey_loop_ok [of p "process_services p" cfg m] show ?thesis by simp
next
  case (At_request p service rest start)
  let ?p = "set_queue_time service (now (env m) - start) p"
  from assms At_request have "about_to (map fst (queue_times p)) (service # rest)" by simp
  from about_to_next [OF this] have "proc_ok (At_timeout ?p service rest)"
    by (simp add: keys_set_queue_time)
  then have "\<forall>eff \<in> set (fst (sample_and_hold rnd pos mean [] [Release service]
      (At_timeout ?p service rest))). effect_ok eff" for mean
    by (intro sample_and_hold_ok) simp_all
  with At_request show ?thesis
    by (auto simp: do_service_granted_def Let_def split: option.splits)
next
  case (At_timeout p service rest)
  let ?p = "set_queue_time ''ExitTime'' (now (env m)) p"
  from assms At_timeout have "about_to (map fst (queue_times ?p)) rest"
    by (simp add: keys_set_queue_time)
  from journey_loop_ok [OF this, of cfg m] At_timeout show ?thesis by simp
qed

lemma journeys_inv_schedule:
  assumes "with_env m (schedule d k (env m)) = Inr m'" and "journeys_inv m" and "proc_ok k"
  shows "journeys_inv m'"
proof -
  from with_env_schedule [OF assms(1)]
  obtain c' where s: "schedule d k (env m) = Inr c'" and m': "m' = m\<lparr>env := c'\<rparr>" by blast
  from s have "\<forall>e \<in> set (pending c'). e \<in> set (pending (env m)) \<or> continuation e = k"
    by (auto simp: schedule_def split: if_splits)
  with assms(2,3) m' show ?thesis by (auto simp: journeys_inv_def)
qed

lemma journeys_inv_granted:
  assumes "resume_granted m g = Inr m'" and "journeys_inv m" and "\<forall>k \<in> set_option g. proc_ok k"
  shows "journeys_inv m'"
proof (cases g)
  case None
  with assms show ?thesis by (simp add: resume_granted_def)
next
  case (Some k)
  with assms(1) have "with_env m (schedule 0 k (env m)) = Inr m'" by (simp add: resume_granted_def)
  from journeys_inv_schedule [OF this assms(2)] assms(3) Some show ?thesis by simp
qed

lemma journeys_inv_update:
  assumes "journeys_inv m" and "\<forall>k \<in> set (wait_queue p'). proc_ok k"
  shows "journeys_inv (m\<lparr>resources := AList.update s p' (resources m)\<rparr>)"
  using assms by (auto simp: journeys_inv_def update_conv')

lemma perform_journeys:
  assumes "perform eff m = Inr m'" and "journeys_inv m" and "effect_ok eff"
  shows "journeys_inv m'"
proof (cases eff)
  case (Process k)
  with assms(1) have w: "with_env m (schedule 0 k (env m)) = Inr m'" by simp
  from journeys_inv_schedule [OF w assms(2)] assms(3) Process show ?thesis by simp
next
  case (Timeout d k)
  with assms(1) have w: "with_env m (schedule d k (env m)) = Inr m'" by simp
  from journeys_inv_schedule [OF w assms(2)] assms(3) Timeout show ?thesis by simp
next
  case (Request s k)
  with assms(1) obtain p p' g where p: "map_of (resources m) s = Some p"
    and r: "request k p = (p', g)"
    and g: "resume_granted (m\<lparr>resources := AList.update s p' (resources m)\<rparr>) g = Inr m'"
    by (auto split: option.splits prod.splits)
  from assms(2) p have w: "\<forall>k \<in> set (wait_queue p). proc_ok k" by (simp add: journeys_inv_def)
  from assms(3) Request have k: "proc_ok k" by simp
  from r w k have 1: "\<forall>k \<in> set (wait_queue p'). proc_ok k" and 2: "\<forall>k \<in> set_option g. proc_ok k"
    by (auto simp: request_def split: if_splits)
  from journeys_inv_granted [OF g journeys_inv_update [OF assms(2) 1] 2] show ?thesis .
next
  case (Release s)
  with assms(1) obtain p p' g where p: "map_of (resources m) s = Some p"
    and r: "release p = Inr (p', g)"
    and g: "resume_granted (m\<lparr>resources := AList.update s p' (resources m)\<rparr>) g = Inr m'"
    by (auto split: option.splits prod.splits sum.splits)
  from assms(2) p have w: "\<forall>k \<in> set (wait_queue p). proc_ok k" by (simp add: journeys_inv_def)
  from r w have 1: "\<forall>k \<in> set (wait_queue p'). proc_ok k" and 2: "\<forall>k \<in> set_option g. proc_ok k"
    by (auto simp: release_def split: if_splits list.splits)
  from journeys_inv_granted [OF g journeys_inv_update [OF assms(2) 1] 2] show ?thesis .
next
  case (Append r)
  with assms show ?thesis by (auto simp: journeys_inv_def)
qed

lemma perform_all_journeys:
  "perform_all effs m = Inr m' \<Longrightarrow> journeys_inv m \<Longrightarrow> \<forall>eff \<in> set effs. effect_ok eff \<Longrightarrow>
     journeys_inv m'"
proof (induction effs arbitrary: m)
  case Nil
  then show ?case by simp
next
  case (Cons eff effs)
  from Cons.prems(1) obtain m1 where p: "perform eff m = Inr m1"
    and r: "perform_all effs m1 = Inr m'"
    by (auto split: sum.splits)
  from perform_journeys [OF p Cons.prems(2)] Cons.prems(3) have "journeys_inv m1" by simp
  from Cons.IH [OF r this] Cons.prems(3) show ?case by simp
qed

lemma fire_journeys:
  assumes "advance (env m) = Some (e, c)" and "fire cfg rnd e c m pos = Inr (m', pos')"
    and "journeys_inv m"
  shows "journeys_inv m'"
proof -
  from assms(1) obtain es where pe: "pending (env m) = e # es"
    and c: "c = (env m)\<lparr>now := due_time e, pending := es\<rparr>"
    by (auto simp: advance_def split: list.splits)
  let ?m = "m\<lparr>env := c\<rparr>"
  from c have "pending (env ?m) = es" "queing_times ?m = queing_times m"
    "resources ?m = resources m" by simp_all
  with assms(3) pe have 1: "journeys_inv ?m" unfolding journeys_inv_def by simp
  from assms(3) pe have 2: "proc_ok (continuation e)" unfolding journeys_inv_def by simp
  from assms(2) have "perform_all (fst (resume cfg rnd ?m pos (continuation e))) ?m = Inr m'"
    by (auto simp: fire_def Let_def split: prod.splits sum.splits option.splits)
  from perform_all_journeys [OF this 1 resume_ok [OF 2]] show ?thesis .
qed

lemma run_steps_journeys:
  "run_steps cfg rnd s1 effs s2 \<Longrightarrow> journeys_inv (fst s1) \<Longrightarrow> journeys_inv (fst s2)"
proof (induction rule: run_steps.induct)
  case (stay cfg rnd s)
  then show ?case by simp
next
  case (step m e c cfg rnd pos s1 effs s2)
  obtain m1 pos1 where s1: "s1 = (m1, pos1)" by (cases s1)
  from fire_journeys [OF step.hyps(1) step.hyps(2) [unfolded s1]] step.prems
  have "journeys_inv m1" by simp
  with step.IH s1 show ?case by simp
qed

lemma ED_Model_init_journeys:
  assumes "ED_Model_init cfg run csv = Inr m"
  shows "journeys_inv m"
proof -
  from assms obtain ps where ps: "new_pools [number_of_receptionists cfg, number_of_nurses cfg,
                      number_of_ed_doctors cfg, number_of_acu_doctors cfg] = Inr ps"
    and m: "m = \<lparr>env = new_clock, resources = zip SERVICES ps,
                  service_times = zip SERVICES [mean_register cfg, mean_triage cfg,
                                                mean_ed_assess cfg, mean_acu_assess cfg],
                  run_number = run, results_csv_filename = csv, queing_times = []\<rparr>"
    by (auto simp: ED_Model_init_def Let_def split: sum.splits)
  from new_pools4 [OF ps] have w: "\<forall>p \<in> set ps. wait_queue p = []" by auto
  have "wait_queue p = []" if "map_of (zip SERVICES ps) service = Some p" for service p
  proof -
    from that have "(service, p) \<in> set (zip SERVICES ps)" by (rule map_of_SomeD)
    then have "p \<in> set ps" by (rule set_zip_rightD)
    with w show ?thesis by simp
  qed
  then show ?thesis unfolding m journeys_inv_def by (simp add: new_clock_def)
qed

lemma simulate_journeys:
  assumes "ED_Model_init cfg run csv = Inr m"
    and "simulate cfg rnd m pos = Some (fired, Inr (m', pos'))"
  shows "\<forall>r \<in> set (queing_times m'). map fst r = exit_keys"
proof (cases "start_arrivals m")
  case (Inl x)
  with assms(2) show ?thesis by (simp add: simulate_def)
next
  case (Inr m1)
  with assms(2) have ru: "run_until cfg rnd (sim_duration cfg + warm_up_duration cfg) [] m1 pos =
      Some (fired, Inr (m', pos'))"
    by (simp add: simulate_def)
  have "proc_ok (Arrivals 1)" by simp
  from journeys_inv_schedule [OF Inr [unfolded start_arrivals_def]
      ED_Model_init_journeys [OF assms(1)] this]
  have 1: "journeys_inv m1" .
  from run_until_steps [OF ru] have "\<exists>effs. run_steps cfg rnd (m1, pos) effs (m', pos')"
    by simp
  then obtain effs where "run_steps cfg rnd (m1, pos) effs (m', pos')" ..
  from run_steps_journeys [OF this] 1 have "journeys_inv m'" by simp
  then show ?thesis unfolding journeys_inv_def by simp
qed

lemma first_seen_repeated:
  assumes "distinct ks" and "set ys \<subseteq> set ks"
  shows "first_seen (ks @ ys) = ks"
proof -
  from assms(2) have "set (rev ys) \<subseteq> set (rev ks)" by simp
  then have "remdups (rev ys @ rev ks) = remdups (rev ks)" by (rule remdups_append)
  moreover from assms(1) have "remdups (rev ks) = rev ks" by (simp add: distinct_remdups_id)
  ultimately show ?thesis by (simp add: first_seen_def)
qed

lemma DataFrame_of_same_keys:
  assumes "\<forall>r \<in> set rs. map fst r = ks" and "distinct ks" and "rs \<noteq> []"
  shows "columns (DataFrame_of rs) = map Name ks"
    and "\<forall>row \<in> set (cells (DataFrame_of rs)). length row = length ks"
proof -
  from assms(3) obtain r rest where rs: "rs = r # rest" by (cases rs) auto
  with assms(1) have "concat (map (map fst) rs) = ks @ concat (map (map fst) rest)"
    and "set (concat (map (map fst) rest)) \<subseteq> set ks"
    by auto
  with first_seen_repeated [OF assms(2)]
  have "first_seen (concat (map (map fst) rs)) = ks" by simp
  then show "columns (DataFrame_of rs) = map Name ks"
    and "\<forall>row \<in> set (cells (DataFrame_of rs)). length row = length ks"
    by (auto simp: DataFrame_of_def Let_def)
qed

lemma exit_keys_distinct: "distinct exit_keys" "length exit_keys = 8"
  by (simp_all add: exit_keys_def arrival_keys_def)

lemma recorded_rows:
  assumes "\<forall>r \<in> set rs. map fst r = exit_keys"
  shows "\<forall>row \<in> set (cells (DataFrame_of rs)). length row = 8"
proof (cases "rs = []")
  case True
  then show ?thesis by (simp add: DataFrame_of_def)
next
  case False
  from DataFrame_of_same_keys(2) [OF assms exit_keys_distinct(1) False] exit_keys_distinct(2)
  show ?thesis by simp
qed

section \<open>Reading a result off a run\<close>

text \<open>
  Reading a result off a closed run: a case distinction that evaluates to true names the
  value returned.
\<close>

lemma returned:
  "(case x of Inl a \<Rightarrow> False | Inr b \<Rightarrow> P b) \<Longrightarrow> \<exists>b. x = Inr b \<and> P b"
  by (cases x) auto

lemma returned_pair:
  "(case x of Inl a \<Rightarrow> False | Inr (b, c) \<Rightarrow> P b c) \<Longrightarrow> \<exists>b c. x = Inr (b, c) \<and> P b c"
  by (cases x) auto

lemma returned_some:
  "(case x of None \<Rightarrow> False | Some (a, b) \<Rightarrow> P a b) \<Longrightarrow> \<exists>a b. x = Some (a, b) \<and> P a b"
  by (cases x) auto

section \<open>Warm-up filter\<close>

text \<open>
  C1. The claim: a patient whose journey completes is appended to the run's results if
  and only if the clock then shows more than \<^verbatim>\<open>g.warm_up_duration\<close>. The code does the
  opposite: \<^verbatim>\<open>is_warming_up\<close> is true after the warm-up, and the journey appends when it
  is false. The last resumption of a journey releases the resource and leaves the loop;
  it appends the patient exactly when the clock shows at most the warm-up duration. With
  the parameters of the source (warm-up 1440) it appends nothing at 1441 and appends the
  patient at 1440. In the example run with a warm-up of 7, the patient who leaves at 7
  is in the results file and the patient who leaves at 8 is not.
\<close>

theorem warm_up_filter_is_inverted:
  "fst (resume cfg rnd m pos (At_timeout p service [])) =
     Release service #
       (if now (env m) \<le> warm_up_duration cfg
        then [Append (queue_times (set_queue_time ''ExitTime'' (now (env m)) p))]
        else [])
   \<and> fst (resume g_class rnd (at_time 1441 m) pos (At_timeout p ''ED_Assessment'' []))
     = [Release ''ED_Assessment'']
   \<and> fst (resume g_class rnd (at_time 1440 m) pos (At_timeout p ''ED_Assessment'' []))
     = [Release ''ED_Assessment'',
        Append (queue_times (set_queue_time ''ExitTime'' 1440 p))]
   \<and> map_option (\<lambda>(w, out). map_option data_lines (map_of (files_of w) RESULTS_CSV))
       (main (example_g\<lparr>sim_duration := 93, warm_up_duration := 7\<rparr>) example_rnd empty_world)
     = Some (Some [[Some 1, Some 0, None, Some 0, Some 0, Some 0, Some 7, Some 0]])"
proof -
  have 1: "fst (resume cfg rnd m pos (At_timeout p service [])) =
     Release service #
       (if now (env m) \<le> warm_up_duration cfg
        then [Append (queue_times (set_queue_time ''ExitTime'' (now (env m)) p))]
        else [])"
    by (simp add: journey_loop_def is_warming_up_def)
  have 2: "fst (resume g_class rnd (at_time 1441 m) pos (At_timeout p ''ED_Assessment'' []))
     = [Release ''ED_Assessment'']"
    by (simp add: journey_loop_def is_warming_up_def g_class_def at_time_def)
  have 3: "fst (resume g_class rnd (at_time 1440 m) pos (At_timeout p ''ED_Assessment'' []))
     = [Release ''ED_Assessment'',
        Append (queue_times (set_queue_time ''ExitTime'' 1440 p))]"
    by (simp add: journey_loop_def is_warming_up_def g_class_def at_time_def)
  have 4: "map_option (\<lambda>(w, out). map_option data_lines (map_of (files_of w) RESULTS_CSV))
       (main (example_g\<lparr>sim_duration := 93, warm_up_duration := 7\<rparr>) example_rnd empty_world)
     = Some (Some [[Some 1, Some 0, None, Some 0, Some 0, Some 0, Some 7, Some 0]])"
    by code_simp
  from 1 2 3 4 show ?thesis by (intro conjI)
qed

section \<open>Resource pools: bounds and first come, first served\<close>

text \<open>
  C2. A pool built with capacity \<open>C\<close> and then used in any way (any sequence of requests
  and releases that raises no error, a burst of more than \<open>C\<close> requests included) has
  \<open>0 \<le> in_use \<le> C\<close>, and the requests granted so far, in the order of their grants,
  followed by those still waiting, are the requests in the order of their arrival: no
  request is granted before one that arrived earlier. The same holds in every state that
  a run of the model goes through, started from \<^verbatim>\<open>ED_Model.__init__\<close> and the arrivals
  process: each of the four services has its pool, with the configured staffing level as
  capacity and \<open>0 \<le> in_use \<le> capacity\<close>; the pool is what its initial pool becomes under
  the requests and releases that the patients of the run addressed to that service, and
  the patients granted so far followed by those still waiting are the patients in the
  order in which they asked. Every state that \<open>run_until\<close> returns, for any horizon, is
  such a state.
\<close>

theorem pools_bounded_and_fifo:
  "(new_pool C = Inr p0 \<and> pool_run p0 [] ops = Inr (p, grants) \<longrightarrow>
      0 \<le> in_use p \<and> in_use p \<le> C \<and> capacity p = C \<and>
      grants @ wait_queue p = requests_of ops)
   \<and> (ED_Model_init cfg run csv = Inr m0 \<and> start_arrivals m0 = Inr m1 \<and>
      run_steps cfg rnd (m1, pos) effs (m, pos') \<longrightarrow>
      (\<forall>service \<in> set SERVICES. \<exists>q0 q granted.
          map_of (resources m0) service = Some q0 \<and> map_of (resources m) service = Some q \<and>
          map_of (staffing_of cfg) service = Some (capacity q) \<and>
          0 \<le> in_use q \<and> in_use q \<le> capacity q \<and>
          pool_run q0 [] (pool_ops service effs) = Inr (q, granted) \<and>
          granted @ wait_queue q = requests_of (pool_ops service effs)))
   \<and> (start_arrivals m0 = Inr m1 \<and>
      run_until cfg rnd horizon [] m1 pos = Some (fired, Inr (m, pos')) \<longrightarrow>
      (\<exists>effs. run_steps cfg rnd (m1, pos) effs (m, pos')))"
proof (rule conjI [OF _ conjI]; rule impI)
  assume a: "new_pool C = Inr p0 \<and> pool_run p0 [] ops = Inr (p, grants)"
  with new_pool_ok [of C p0] have "pool_ok p0" "capacity p0 = C" "wait_queue p0 = []" by simp_all
  with pool_run_ok [of p0 "[]" ops p grants] a
  show "0 \<le> in_use p \<and> in_use p \<le> C \<and> capacity p = C \<and> grants @ wait_queue p = requests_of ops"
    by (simp add: pool_ok_def)
next
  assume a: "ED_Model_init cfg run csv = Inr m0 \<and> start_arrivals m0 = Inr m1 \<and>
      run_steps cfg rnd (m1, pos) effs (m, pos')"
  then have init: "ED_Model_init cfg run csv = Inr m0" and start: "start_arrivals m0 = Inr m1"
    and steps: "run_steps cfg rnd (m1, pos) effs (m, pos')" by simp_all
  from ED_Model_init_inv [OF init] have pi0: "pools_inv cfg m0" by simp
  from start_run_inv [OF init start]
  have 1: "clock_inv (env m1) []" "pools_inv cfg m1" "resources m1 = resources m0" by simp_all
  from run_steps_inv [OF steps, of "[]"] 1 have pi: "pools_inv cfg m" by simp
  show "\<forall>service \<in> set SERVICES. \<exists>q0 q granted.
          map_of (resources m0) service = Some q0 \<and> map_of (resources m) service = Some q \<and>
          map_of (staffing_of cfg) service = Some (capacity q) \<and>
          0 \<le> in_use q \<and> in_use q \<le> capacity q \<and>
          pool_run q0 [] (pool_ops service effs) = Inr (q, granted) \<and>
          granted @ wait_queue q = requests_of (pool_ops service effs)"
  proof
    fix service assume "service \<in> set SERVICES"
    with pi0 have "service \<in> set (map fst (resources m0))" by (simp add: pools_inv_def)
    then obtain q0 where q0: "map_of (resources m0) service = Some q0"
      by (metis map_of_eq_None_iff not_Some_eq set_map)
    with ED_Model_init_inv [OF init] have ok0: "pool_ok q0" by (simp add: pools_inv_def)
    from init q0 have w0: "wait_queue q0 = []"
      by (auto simp: ED_Model_init_def Let_def SERVICES_def new_pool_def
          split: sum.splits if_splits)
    from run_steps_pool [OF steps, of service q0 "[]"] q0 1(3)
    obtain q granted where q: "map_of (resources m) service = Some q"
      and r: "pool_run q0 [] (pool_ops service effs) = Inr (q, granted)" by auto
    from pool_run_ok [OF ok0 r] w0
    have "granted @ wait_queue q = requests_of (pool_ops service effs)" by simp
    with q r q0 pi show "\<exists>q0 q granted.
          map_of (resources m0) service = Some q0 \<and> map_of (resources m) service = Some q \<and>
          map_of (staffing_of cfg) service = Some (capacity q) \<and>
          0 \<le> in_use q \<and> in_use q \<le> capacity q \<and>
          pool_run q0 [] (pool_ops service effs) = Inr (q, granted) \<and>
          granted @ wait_queue q = requests_of (pool_ops service effs)"
      by (auto simp: pools_inv_def pool_ok_def)
  qed
next
  assume "start_arrivals m0 = Inr m1 \<and>
      run_until cfg rnd horizon [] m1 pos = Some (fired, Inr (m, pos'))"
  then have "run_until cfg rnd horizon [] m1 pos = Some (fired, Inr (m, pos'))" by simp
  from run_until_steps [OF this] show "\<exists>effs. run_steps cfg rnd (m1, pos) effs (m, pos')"
    by simp
qed

text \<open>
  A pool of two under five requests and two releases, and the run of the example settings
  up to time 100.
\<close>

theorem pools_bounded_and_fifo_witness:
  "(new_pool 2 = Inr (\<lparr>capacity = 2, in_use = 0, wait_queue = []\<rparr> :: nat pool) \<and>
    pool_run \<lparr>capacity = 2, in_use = 0, wait_queue = []\<rparr> []
        [Req (1::nat), Req 2, Req 3, Req 4, Req 5, Rel, Rel] =
      Inr (\<lparr>capacity = 2, in_use = 2, wait_queue = [5]\<rparr>, [1, 2, 3, 4]) \<and>
    [1, 2, 3, 4] @ [5] = requests_of [Req (1::nat), Req 2, Req 3, Req 4, Req 5, Rel, Rel])
   \<and> (\<exists>m0 m1 fired m pos' effs.
        ED_Model_init example_g 0 RESULTS_CSV = Inr m0 \<and> start_arrivals m0 = Inr m1 \<and>
        run_until example_g example_rnd 100 [] m1 0 = Some (fired, Inr (m, pos')) \<and>
        run_steps example_g example_rnd (m1, 0) effs (m, pos') \<and>
        (\<forall>service \<in> set SERVICES. \<exists>q0 q granted.
            map_of (resources m0) service = Some q0 \<and> map_of (resources m) service = Some q \<and>
            map_of (staffing_of example_g) service = Some (capacity q) \<and>
            0 \<le> in_use q \<and> in_use q \<le> capacity q \<and>
            pool_run q0 [] (pool_ops service effs) = Inr (q, granted) \<and>
            granted @ wait_queue q = requests_of (pool_ops service effs)))"
proof -
  let ?init = "\<lparr>capacity = 2, in_use = 0, wait_queue = []\<rparr> :: nat pool"
  let ?ops = "[Req (1::nat), Req 2, Req 3, Req 4, Req 5, Rel, Rel]"
  let ?final = "\<lparr>capacity = 2, in_use = 2, wait_queue = [5]\<rparr> :: nat pool"
  have a: "new_pool 2 = Inr ?init \<and> pool_run ?init [] ?ops = Inr (?final, [1, 2, 3, 4])"
    by (simp add: new_pool_def request_def release_def)
  have "(case ED_Model_init example_g 0 RESULTS_CSV of
          Inl x \<Rightarrow> False
        | Inr m0 \<Rightarrow>
            (case start_arrivals m0 of
               Inl x \<Rightarrow> False
             | Inr m1 \<Rightarrow>
                 (case run_until example_g example_rnd 100 [] m1 0 of
                    None \<Rightarrow> False
                  | Some (fired, r) \<Rightarrow> (case r of Inl x \<Rightarrow> False | Inr (m, pos') \<Rightarrow> True)))) = True"
    by code_simp
  from this [THEN eqTrueE, THEN returned] obtain m0 where
    i: "ED_Model_init example_g 0 RESULTS_CSV = Inr m0"
    and "case start_arrivals m0 of
               Inl x \<Rightarrow> False
             | Inr m1 \<Rightarrow>
                 (case run_until example_g example_rnd 100 [] m1 0 of
                    None \<Rightarrow> False
                  | Some (fired, r) \<Rightarrow> (case r of Inl x \<Rightarrow> False | Inr (m, pos') \<Rightarrow> True))"
    by (elim exE conjE)
  from this(2) [THEN returned] obtain m1 where
    s: "start_arrivals m0 = Inr m1"
    and "case run_until example_g example_rnd 100 [] m1 0 of
                    None \<Rightarrow> False
                  | Some (fired, r) \<Rightarrow> (case r of Inl x \<Rightarrow> False | Inr (m, pos') \<Rightarrow> True)"
    by (elim exE conjE)
  from this(2) [THEN returned_some] obtain fired r where
    u: "run_until example_g example_rnd 100 [] m1 0 = Some (fired, r)"
    and "case r of Inl x \<Rightarrow> False | Inr (m, pos') \<Rightarrow> True"
    by (elim exE conjE)
  from this(2) [THEN returned_pair] obtain m pos' where r: "r = Inr (m, pos')"
    by (elim exE conjE)
  note t = pools_bounded_and_fifo [where C = 2 and ?p0.0 = ?init and ops = ?ops and p = ?final and grants = "[1, 2, 3, 4]"
      and cfg = example_g and run = 0 and csv = RESULTS_CSV and ?m0.0 = m0 and ?m1.0 = m1
      and rnd = example_rnd and horizon = 100 and fired = fired and m = m and pos = 0 and pos' = pos']
  from t [THEN conjunct1, THEN mp, OF a] have 1: "[1, 2, 3, 4] @ [5] = requests_of ?ops" by simp
  from s u r have c: "start_arrivals m0 = Inr m1 \<and>
      run_until example_g example_rnd 100 [] m1 0 = Some (fired, Inr (m, pos'))" by simp
  from t [THEN conjunct2, THEN conjunct2, THEN mp, OF c] obtain effs where
    e: "run_steps example_g example_rnd (m1, 0) effs (m, pos')" by (elim exE)
  from i s e have b: "ED_Model_init example_g 0 RESULTS_CSV = Inr m0 \<and> start_arrivals m0 = Inr m1 \<and>
      run_steps example_g example_rnd (m1, 0) effs (m, pos')" by (intro conjI)
  note 2 = t [where effs = effs, THEN conjunct2, THEN conjunct1, THEN mp, OF b]
  show ?thesis
  proof (rule conjI)
    from a 1 show "new_pool 2 = Inr ?init \<and> pool_run ?init [] ?ops = Inr (?final, [1, 2, 3, 4]) \<and>
        [1, 2, 3, 4] @ [5] = requests_of ?ops"
      by (intro conjI) (rule conjunct1, assumption, rule conjunct2, assumption, assumption)
  next
    from i c e 2 show "\<exists>m0 m1 fired m pos' effs.
        ED_Model_init example_g 0 RESULTS_CSV = Inr m0 \<and> start_arrivals m0 = Inr m1 \<and>
        run_until example_g example_rnd 100 [] m1 0 = Some (fired, Inr (m, pos')) \<and>
        run_steps example_g example_rnd (m1, 0) effs (m, pos') \<and>
        (\<forall>service \<in> set SERVICES. \<exists>q0 q granted.
            map_of (resources m0) service = Some q0 \<and> map_of (resources m) service = Some q \<and>
            map_of (staffing_of example_g) service = Some (capacity q) \<and>
            0 \<le> in_use q \<and> in_use q \<le> capacity q \<and>
            pool_run q0 [] (pool_ops service effs) = Inr (q, granted) \<and>
            granted @ wait_queue q = requests_of (pool_ops service effs))"
      by (elim conjE) (intro exI conjI; assumption)
  qed
qed

section \<open>Clock: monotone time and scheduling order among ties\<close>

text \<open>
  C3. For a clock used in any way (any sequence of \<open>schedule\<close> and \<open>advance\<close> calls
  that raises no error), continued in any way: \<open>now\<close> does not decrease, the events fire
  in non-decreasing order of due time, and events due at the same instant fire in the
  order of their sequence numbers, that is, in the order in which they were scheduled.
  For a list of events scheduled together and then all fired, the firing order is the
  stable sort of the list by due time: a function of the list alone, in which events
  with equal due times keep the order in which they were scheduled. In a run of the
  model, the clock of any state the run goes through is at or after 0 and at or before
  the clock of any state it goes through later, and the events fired by a run of
  \<^verbatim>\<open>ED_Model.run\<close> are in the order of their due times and, among ties, of their
  scheduling.
\<close>

theorem clock_monotone_and_fifo:
  "(clock_run new_clock [] ops = Inr (c1, fired1) \<and> clock_run c1 fired1 later = Inr (c2, fired2) \<longrightarrow>
      now c1 \<le> now c2 \<and> sorted (map due_time fired2) \<and> sorted_wrt precedes fired2)
   \<and> ((\<forall>(d, k) \<in> set evs. 0 \<le> d) \<longrightarrow>
      (\<exists>c fired. clock_run new_clock [] (burst evs) = Inr (c, fired) \<and> pending c = [] \<and>
         map timed fired = sort_key fst evs))
   \<and> (ED_Model_init cfg run csv = Inr m0 \<and> start_arrivals m0 = Inr m1 \<and>
      run_steps cfg rnd (m1, pos) effs1 s1 \<and> run_steps cfg rnd s1 effs2 s2 \<longrightarrow>
      0 \<le> now (env (fst s1)) \<and> now (env (fst s1)) \<le> now (env (fst s2)))
   \<and> (ED_Model_init cfg run csv = Inr m0 \<and> simulate cfg rnd m0 pos = Some (fired, r) \<longrightarrow>
      sorted (map due_time (rev fired)) \<and> sorted_wrt precedes (rev fired))"
proof (rule conjI [OF _ conjI [OF _ conjI]]; rule impI)
  assume a: "clock_run new_clock [] ops = Inr (c1, fired1) \<and> clock_run c1 fired1 later = Inr (c2, fired2)"
  from clock_run_inv [OF new_clock_inv, of ops c1 fired1] a have 1: "clock_inv c1 fired1" by simp
  from clock_run_inv [OF 1, of later c2 fired2] a have 2: "clock_inv c2 fired2" "now c1 \<le> now c2"
    by simp_all
  from 2(1) have "sorted_wrt precedes fired2" by (auto simp: clock_inv_def sorted_wrt_append)
  with 2(2) precedes_due [of fired2]
  show "now c1 \<le> now c2 \<and> sorted (map due_time fired2) \<and> sorted_wrt precedes fired2" by simp
next
  assume "\<forall>(d, k) \<in> set evs. 0 \<le> d"
  then show "\<exists>c fired. clock_run new_clock [] (burst evs) = Inr (c, fired) \<and> pending c = [] \<and>
         map timed fired = sort_key fst evs" by (rule burst_fires_sorted)
next
  assume a: "ED_Model_init cfg run csv = Inr m0 \<and> start_arrivals m0 = Inr m1 \<and>
      run_steps cfg rnd (m1, pos) effs1 s1 \<and> run_steps cfg rnd s1 effs2 s2"
  then have init: "ED_Model_init cfg run csv = Inr m0" and start: "start_arrivals m0 = Inr m1"
    and r1: "run_steps cfg rnd (m1, pos) effs1 s1" and r2: "run_steps cfg rnd s1 effs2 s2"
    by simp_all
  from start_run_inv [OF init start]
  have 1: "clock_inv (env m1) []" "pools_inv cfg m1" by simp_all
  from ED_Model_init_inv [OF init] start_arrivals_inv [OF start, of "[]"]
  have z: "now (env m1) = 0" by simp
  from run_steps_inv [OF r1, of "[]"] 1
  obtain f' where 2: "clock_inv (env (fst s1)) f'" "pools_inv cfg (fst s1)"
    "now (env m1) \<le> now (env (fst s1))" by auto
  from run_steps_inv [OF r2 2(1,2)] 2(3) z
  show "0 \<le> now (env (fst s1)) \<and> now (env (fst s1)) \<le> now (env (fst s2))" by simp
next
  assume a: "ED_Model_init cfg run csv = Inr m0 \<and> simulate cfg rnd m0 pos = Some (fired, r)"
  from simulate_inv [of cfg run csv m0 rnd pos "(fired, r)"] a
  have "sorted_wrt precedes (rev fired)" by (simp add: run_result_ok_def)
  with precedes_due [of "rev fired"]
  show "sorted (map due_time (rev fired)) \<and> sorted_wrt precedes (rev fired)" by simp
qed

text \<open>
  Three events due at the same instant, scheduled in two rounds; a burst of four events
  with two ties; the run of the example settings stopped at time 5 and continued to time
  100; and the events of the whole run of the example settings.
\<close>

theorem clock_monotone_and_fifo_witness:
  "(\<exists>c1 fired1 c2 fired2.
      clock_run (new_clock :: nat clock) [] [Schedule 2 1, Schedule 2 2, Advance] = Inr (c1, fired1) \<and>
      clock_run c1 fired1 [Schedule 0 3, Advance, Advance] = Inr (c2, fired2) \<and>
      map timed fired2 = [(2, 1), (2, 2), (2, 3)] \<and>
      now c1 \<le> now c2 \<and> sorted (map due_time fired2) \<and> sorted_wrt precedes fired2)
   \<and> (\<exists>c fired.
      clock_run new_clock [] (burst [(5, 1::nat), (3, 2), (5, 3), (3, 4)]) = Inr (c, fired) \<and>
      pending c = [] \<and> map timed fired = [(3, 2), (3, 4), (5, 1), (5, 3)])
   \<and> (\<exists>m0 m1 effs1 s1 effs2 s2.
      ED_Model_init example_g 0 RESULTS_CSV = Inr m0 \<and> start_arrivals m0 = Inr m1 \<and>
      run_steps example_g example_rnd (m1, 0) effs1 s1 \<and>
      run_steps example_g example_rnd s1 effs2 s2 \<and>
      now (env (fst s1)) = 5 \<and> now (env (fst s2)) = 8 \<and>
      0 \<le> now (env (fst s1)) \<and> now (env (fst s1)) \<le> now (env (fst s2)))
   \<and> (\<exists>m0 fired r.
      ED_Model_init example_g 0 RESULTS_CSV = Inr m0 \<and>
      simulate example_g example_rnd m0 0 = Some (fired, r) \<and> length fired = 16 \<and>
      sorted (map due_time (rev fired)) \<and> sorted_wrt precedes (rev fired))"
proof -
  let ?ops = "[Schedule 2 (1::nat), Schedule 2 2, Advance]"
  let ?later = "[Schedule 0 (3::nat), Advance, Advance]"
  let ?evs = "[(5::real, 1::nat), (3, 2), (5, 3), (3, 4)]"
  have "(case clock_run (new_clock :: nat clock) [] ?ops of
           Inl x \<Rightarrow> False
         | Inr (c1, fired1) \<Rightarrow>
             (case clock_run c1 fired1 ?later of
                Inl x \<Rightarrow> False
              | Inr (c2, fired2) \<Rightarrow> map timed fired2 = [(2, 1), (2, 2), (2, 3)])) = True"
    by code_simp
  from this [THEN eqTrueE, THEN returned_pair] obtain c1 fired1 where
    a1: "clock_run (new_clock :: nat clock) [] ?ops = Inr (c1, fired1)"
    and "case clock_run c1 fired1 ?later of
                Inl x \<Rightarrow> False
              | Inr (c2, fired2) \<Rightarrow> map timed fired2 = [(2, 1), (2, 2), (2, 3)]"
    by (elim exE conjE)
  from this(2) [THEN returned_pair] obtain c2 fired2 where
    a2: "clock_run c1 fired1 ?later = Inr (c2, fired2)"
    and a': "map timed fired2 = [(2, 1), (2, 2), (2, 3)]"
    by (elim exE conjE)
  from a1 a2 have a: "clock_run (new_clock :: nat clock) [] ?ops = Inr (c1, fired1) \<and>
        clock_run c1 fired1 ?later = Inr (c2, fired2)" by (rule conjI)
  have b: "\<forall>(d, k) \<in> set ?evs. 0 \<le> d" by simp
  have "(case ED_Model_init example_g 0 RESULTS_CSV of
           Inl x \<Rightarrow> False
         | Inr m0 \<Rightarrow>
             (case simulate example_g example_rnd m0 0 of
                None \<Rightarrow> False
              | Some (fired, r) \<Rightarrow> length fired = 16)) = True"
    by code_simp
  from this [THEN eqTrueE, THEN returned] obtain m0 where
    i0: "ED_Model_init example_g 0 RESULTS_CSV = Inr m0"
    and "case simulate example_g example_rnd m0 0 of
                None \<Rightarrow> False
              | Some (fired, r) \<Rightarrow> length fired = 16"
    by (elim exE conjE)
  from this(2) [THEN returned_some] obtain fired r where
    sim: "simulate example_g example_rnd m0 0 = Some (fired, r)" and c': "length fired = 16"
    by (elim exE conjE)
  from i0 sim have c: "ED_Model_init example_g 0 RESULTS_CSV = Inr m0 \<and>
        simulate example_g example_rnd m0 0 = Some (fired, r)" by (rule conjI)
  have "(case ED_Model_init example_g 0 RESULTS_CSV of
           Inl x \<Rightarrow> False
         | Inr m0 \<Rightarrow>
        (case start_arrivals m0 of
           Inl x \<Rightarrow> False
         | Inr m1 \<Rightarrow>
             (case run_until example_g example_rnd 5 [] m1 0 of
                None \<Rightarrow> False
              | Some (f1, r1) \<Rightarrow>
                  (case r1 of
                     Inl x \<Rightarrow> False
                   | Inr (ma, pa) \<Rightarrow>
                       now (env ma) = 5 \<and>
                       (case run_until example_g example_rnd 100 f1 ma pa of
                          None \<Rightarrow> False
                        | Some (f2, r2) \<Rightarrow>
                            (case r2 of Inl x \<Rightarrow> False | Inr (mb, pb) \<Rightarrow> now (env mb) = 8)))))) = True"
    by code_simp
  then have "(case start_arrivals m0 of
           Inl x \<Rightarrow> False
         | Inr m1 \<Rightarrow>
             (case run_until example_g example_rnd 5 [] m1 0 of
                None \<Rightarrow> False
              | Some (f1, r1) \<Rightarrow>
                  (case r1 of
                     Inl x \<Rightarrow> False
                   | Inr (ma, pa) \<Rightarrow>
                       now (env ma) = 5 \<and>
                       (case run_until example_g example_rnd 100 f1 ma pa of
                          None \<Rightarrow> False
                        | Some (f2, r2) \<Rightarrow>
                            (case r2 of Inl x \<Rightarrow> False | Inr (mb, pb) \<Rightarrow> now (env mb) = 8))))) = True"
    by (simp only: i0 sum.case)
  from this [THEN eqTrueE, THEN returned] obtain m1 where
    s: "start_arrivals m0 = Inr m1"
    and "case run_until example_g example_rnd 5 [] m1 0 of
                None \<Rightarrow> False
              | Some (f1, r1) \<Rightarrow>
                  (case r1 of
                     Inl x \<Rightarrow> False
                   | Inr (ma, pa) \<Rightarrow>
                       now (env ma) = 5 \<and>
                       (case run_until example_g example_rnd 100 f1 ma pa of
                          None \<Rightarrow> False
                        | Some (f2, r2) \<Rightarrow>
                            (case r2 of Inl x \<Rightarrow> False | Inr (mb, pb) \<Rightarrow> now (env mb) = 8)))"
    by (elim exE conjE)
  from this(2) [THEN returned_some] obtain f1 r1 where
    u1: "run_until example_g example_rnd 5 [] m1 0 = Some (f1, r1)"
    and "case r1 of
                     Inl x \<Rightarrow> False
                   | Inr (ma, pa) \<Rightarrow>
                       now (env ma) = 5 \<and>
                       (case run_until example_g example_rnd 100 f1 ma pa of
                          None \<Rightarrow> False
                        | Some (f2, r2) \<Rightarrow>
                            (case r2 of Inl x \<Rightarrow> False | Inr (mb, pb) \<Rightarrow> now (env mb) = 8))"
    by (elim exE conjE)
  from this(2) [THEN returned_pair] obtain ma pa where
    r1: "r1 = Inr (ma, pa)" and n1: "now (env ma) = 5"
    and "case run_until example_g example_rnd 100 f1 ma pa of
                          None \<Rightarrow> False
                        | Some (f2, r2) \<Rightarrow>
                            (case r2 of Inl x \<Rightarrow> False | Inr (mb, pb) \<Rightarrow> now (env mb) = 8)"
    by (elim exE conjE)
  from this(3) [THEN returned_some] obtain f2 r2 where
    u2: "run_until example_g example_rnd 100 f1 ma pa = Some (f2, r2)"
    and "case r2 of Inl x \<Rightarrow> False | Inr (mb, pb) \<Rightarrow> now (env mb) = 8"
    by (elim exE conjE)
  from this(2) [THEN returned_pair] obtain mb pb where
    r2: "r2 = Inr (mb, pb)" and n2: "now (env mb) = 8"
    by (elim exE conjE)
  from run_until_steps [OF u1] r1 obtain effs1 where
    e1: "run_steps example_g example_rnd (m1, 0) effs1 (ma, pa)" by auto
  from run_until_steps [OF u2] r2 obtain effs2 where
    e2: "run_steps example_g example_rnd (ma, pa) effs2 (mb, pb)" by auto
  from i0 s e1 e2 have d: "ED_Model_init example_g 0 RESULTS_CSV = Inr m0 \<and>
      start_arrivals m0 = Inr m1 \<and> run_steps example_g example_rnd (m1, 0) effs1 (ma, pa) \<and>
      run_steps example_g example_rnd (ma, pa) effs2 (mb, pb)" by (intro conjI)
  note t = clock_monotone_and_fifo [where ops = ?ops and ?c1.0 = c1 and ?fired1.0 = fired1 and later = ?later
      and ?c2.0 = c2 and ?fired2.0 = fired2 and evs = ?evs
      and cfg = example_g and run = 0 and csv = RESULTS_CSV and ?m0.0 = m0 and ?m1.0 = m1
      and rnd = example_rnd and pos = 0 and fired = fired and r = r
      and ?effs1.0 = effs1 and ?s1.0 = "(ma, pa)" and ?effs2.0 = effs2 and ?s2.0 = "(mb, pb)"]
  note 1 = t [THEN conjunct1, THEN mp, OF a]
  note 2 = t [THEN conjunct2, THEN conjunct1, THEN mp, OF b]
  note 3 = t [THEN conjunct2, THEN conjunct2, THEN conjunct1, THEN mp, OF d]
  note 4 = t [THEN conjunct2, THEN conjunct2, THEN conjunct2, THEN mp, OF c]
  have s: "sort_key fst ?evs = [(3, 2), (3, 4), (5, 1), (5, 3)]" by simp
  have n: "now (env (fst (ma, pa))) = 5" "now (env (fst (mb, pb))) = 8" using n1 n2 by simp_all
  show ?thesis
  proof (intro conjI)
    from a a' 1 show "\<exists>c1 fired1 c2 fired2.
      clock_run (new_clock :: nat clock) [] ?ops = Inr (c1, fired1) \<and>
      clock_run c1 fired1 ?later = Inr (c2, fired2) \<and>
      map timed fired2 = [(2, 1), (2, 2), (2, 3)] \<and>
      now c1 \<le> now c2 \<and> sorted (map due_time fired2) \<and> sorted_wrt precedes fired2"
      by (elim conjE) (intro exI conjI; assumption)
  next
    from 2 s show "\<exists>c fired.
      clock_run new_clock [] (burst ?evs) = Inr (c, fired) \<and>
      pending c = [] \<and> map timed fired = [(3, 2), (3, 4), (5, 1), (5, 3)]"
      by (simp only:)
  next
    from d n 3 show "\<exists>m0 m1 effs1 s1 effs2 s2.
      ED_Model_init example_g 0 RESULTS_CSV = Inr m0 \<and> start_arrivals m0 = Inr m1 \<and>
      run_steps example_g example_rnd (m1, 0) effs1 s1 \<and>
      run_steps example_g example_rnd s1 effs2 s2 \<and>
      now (env (fst s1)) = 5 \<and> now (env (fst s2)) = 8 \<and>
      0 \<le> now (env (fst s1)) \<and> now (env (fst s1)) \<le> now (env (fst s2))"
      by (elim conjE) (intro exI conjI; assumption)
  next
    from c c' 4 show "\<exists>m0 fired r.
      ED_Model_init example_g 0 RESULTS_CSV = Inr m0 \<and>
      simulate example_g example_rnd m0 0 = Some (fired, r) \<and> length fired = 16 \<and>
      sorted (map due_time (rev fired)) \<and> sorted_wrt precedes (rev fired)"
      by (elim conjE) (intro exI conjI; assumption)
  qed
qed

section \<open>Two trials with the same inputs\<close>

text \<open>
  The results file after \<^verbatim>\<open>store_results\<close>, and what of the world a trial's output
  depends on.
\<close>

lemma store_results_exists:
  "map_of fs (results_csv_filename m) = Some f \<Longrightarrow>
     store_results m fs =
       AList.update (results_csv_filename m)
         (f\<lparr>data_lines := data_lines f @ cells (DataFrame_of (queing_times m))\<rparr>) fs"
  by (simp add: store_results_def to_csv_append_def Let_def)

lemma store_results_new:
  "map_of fs (results_csv_filename m) = None \<Longrightarrow>
     store_results m fs =
       AList.update (results_csv_filename m)
         \<lparr>header = columns (DataFrame_of (queing_times m)),
          data_lines = cells (DataFrame_of (queing_times m))\<rparr> fs"
  by (simp add: store_results_def to_csv_write_def Let_def)

lemma store_results_frame:
  assumes "map_of fs1 path = map_of fs2 path"
  shows "map_of (store_results m fs1) path = map_of (store_results m fs2) path"
proof (cases "path = results_csv_filename m")
  case True
  show ?thesis
  proof (cases "map_of fs1 path")
    case None
    with assms True show ?thesis by (simp add: store_results_new update_conv')
  next
    case (Some f)
    with assms True show ?thesis by (simp add: store_results_exists update_conv')
  qed
next
  case False
  have "map_of (store_results m fs) path = map_of fs path" for fs
    using False by (cases "map_of fs (results_csv_filename m)")
      (simp_all add: store_results_new store_results_exists update_conv')
  with assms show ?thesis by simp
qed

lemma ED_Model_run_frame:
  assumes "same_inputs w1 w2"
  shows "(ED_Model_run cfg rnd m w1 = None \<and> ED_Model_run cfg rnd m w2 = None)
       \<or> (\<exists>x. ED_Model_run cfg rnd m w1 = Some (Inl x) \<and> ED_Model_run cfg rnd m w2 = Some (Inl x))
       \<or> (\<exists>w1' w2'. ED_Model_run cfg rnd m w1 = Some (Inr w1') \<and>
            ED_Model_run cfg rnd m w2 = Some (Inr w2') \<and> same_inputs w1' w2')"
proof -
  from assms have d: "draws w1 = draws w2"
    and f: "map_of (files_of w1) RESULTS_CSV = map_of (files_of w2) RESULTS_CSV"
    by (simp_all add: same_inputs_def)
  show ?thesis
  proof (cases "simulate cfg rnd m (draws w1)")
    case None
    with d show ?thesis by (simp add: ED_Model_run_def)
  next
    case (Some res)
    obtain fired r where res: "res = (fired, r)" by (cases res)
    show ?thesis
    proof (cases r)
      case (Inl x)
      with Some res d show ?thesis by (simp add: ED_Model_run_def)
    next
      case (Inr s)
      obtain m' pos' where s: "s = (m', pos')" by (cases s)
      from store_results_frame [OF f, of m']
      have "same_inputs \<lparr>files_of = store_results m' (files_of w1), draws = pos'\<rparr>
              \<lparr>files_of = store_results m' (files_of w2), draws = pos'\<rparr>"
        by (simp add: same_inputs_def)
      with Some res Inr s d show ?thesis by (simp add: ED_Model_run_def)
    qed
  qed
qed

lemma run_all_frame:
  "same_inputs w1 w2 \<Longrightarrow>
     (run_all cfg rnd runs w1 = None \<and> run_all cfg rnd runs w2 = None)
   \<or> (\<exists>w1' w2' x. run_all cfg rnd runs w1 = Some (w1', x) \<and>
         run_all cfg rnd runs w2 = Some (w2', x) \<and> same_inputs w1' w2')"
proof (induction runs arbitrary: w1 w2)
  case Nil
  then show ?case by simp
next
  case (Cons run runs)
  show ?case
  proof (cases "ED_Model_init cfg run RESULTS_CSV")
    case (Inl x)
    with Cons.prems show ?thesis by simp
  next
    case (Inr m)
    from ED_Model_run_frame [OF Cons.prems, of cfg rnd m]
    consider "ED_Model_run cfg rnd m w1 = None" "ED_Model_run cfg rnd m w2 = None"
      | x where "ED_Model_run cfg rnd m w1 = Some (Inl x)" "ED_Model_run cfg rnd m w2 = Some (Inl x)"
      | w1' w2' where "ED_Model_run cfg rnd m w1 = Some (Inr w1')"
          "ED_Model_run cfg rnd m w2 = Some (Inr w2')" "same_inputs w1' w2'"
      by (elim disjE exE conjE) auto
    then show ?thesis
    proof cases
      case 1
      with Inr show ?thesis by simp
    next
      case 2
      with Inr Cons.prems show ?thesis by simp
    next
      case 3
      from Cons.IH [OF 3(3)] 3(1,2) Inr show ?thesis by simp
    qed
  qed
qed

text \<open>
  C4, as amended. Two trials with the same configuration and the same random stream,
  started at the same position of the stream and with the same content of the results
  file (or with no such file both times), end alike and print the same percentiles.
  The condition on the file is needed: \<^verbatim>\<open>store_results\<close> appends to a file that exists,
  and the statistics read the whole file.
\<close>

theorem same_inputs_same_percentiles:
  "same_inputs w1 w2 \<Longrightarrow> map_option snd (main cfg rnd w1) = map_option snd (main cfg rnd w2)"
proof -
  assume a: "same_inputs w1 w2"
  from run_all_frame [OF a, of cfg rnd "[0 ..< nat (number_of_runs cfg)]"]
  consider "run_all cfg rnd [0 ..< nat (number_of_runs cfg)] w1 = None"
      "run_all cfg rnd [0 ..< nat (number_of_runs cfg)] w2 = None"
    | w1' w2' x where "run_all cfg rnd [0 ..< nat (number_of_runs cfg)] w1 = Some (w1', x)"
        "run_all cfg rnd [0 ..< nat (number_of_runs cfg)] w2 = Some (w2', x)" "same_inputs w1' w2'"
    by (elim disjE exE conjE) auto
  then show ?thesis
  proof cases
    case 1
    then show ?thesis by (simp add: main_def)
  next
    case 2
    from 2(3) have "trial_results (files_of w1') = trial_results (files_of w2')"
      by (simp add: same_inputs_def trial_results_def Trial_Results_Calculator_init_def read_csv_def)
    with 2(1,2) show ?thesis by (cases x) (simp_all add: main_def)
  qed
qed

text \<open>
  Witness for C4: the empty world and a world that differs from it in another file.
\<close>

theorem same_inputs_same_percentiles_witness:
  "same_inputs empty_world \<lparr>files_of = [(''notes.txt'', \<lparr>header = [], data_lines = []\<rparr>)], draws = 0\<rparr>
   \<and> map_option snd (main example_g example_rnd empty_world) =
       map_option snd (main example_g example_rnd
         \<lparr>files_of = [(''notes.txt'', \<lparr>header = [], data_lines = []\<rparr>)], draws = 0\<rparr>)"
proof -
  have s: "same_inputs empty_world
      \<lparr>files_of = [(''notes.txt'', \<lparr>header = [], data_lines = []\<rparr>)], draws = 0\<rparr>"
    by (simp add: same_inputs_def empty_world_def RESULTS_CSV_def)
  from s same_inputs_same_percentiles [OF s, of example_g example_rnd] show ?thesis by (rule conjI)
qed

text \<open>
  Counterexample to C4 as stated: the example trial, run twice with the random stream
  reset in between, prints 3.6 minutes as the 90th percentile of the queueing time for
  registration the first time and 4 minutes the second time, when the file holds the
  rows of both trials.
\<close>

theorem second_trial_differs:
  "trial_twice example_g example_rnd empty_world =
     Some (Inr [(''Registration'', Some (18 / 5)), (''Triage'', Some 0),
                (''ED_Assessment'', Some 0), (''ACU_Assessment'', None)],
           Inr [(''Registration'', Some 4), (''Triage'', Some 0),
                (''ED_Assessment'', Some 0), (''ACU_Assessment'', None)])"
  by code_simp

section \<open>Reading the results file\<close>

text \<open>
  Every row of a frame made from dicts or read from a file has one cell for each column;
  a file with a header and as many fields in every line as in the header is read as it
  stands.
\<close>

lemma DataFrame_of_rectangular:
  "r \<in> set (cells (DataFrame_of rs)) \<Longrightarrow> length r = length (columns (DataFrame_of rs))"
  by (auto simp: DataFrame_of_def Let_def)

lemma read_lines_rectangular:
  assumes "read_lines names rows = Inr df" and "r \<in> set (cells df)"
  shows "length r = length (columns df)"
proof -
  define expected where "expected =
    (case rows of [] \<Rightarrow> length names | r # rest \<Rightarrow> max (length names) (length r))"
  have e: "length names \<le> expected" by (simp add: expected_def split: list.splits)
  from assms(1) have n: "\<not> list_ex (\<lambda>r. expected < length r) rows"
    and df: "df = \<lparr>columns = names,
        cells = map (\<lambda>r. drop (expected - length names)
          (r @ replicate (expected - length r) None)) rows\<rparr>"
    by (auto simp: read_lines_def Let_def expected_def split: if_splits)
  from assms(2) df obtain l where l: "l \<in> set rows"
    and r: "r = drop (expected - length names) (l @ replicate (expected - length l) None)"
    by auto
  from n l have "length l \<le> expected" by (auto simp: list_ex_iff not_less)
  with e r df show ?thesis by simp
qed

lemma read_csv_rectangular:
  assumes "read_csv path fs = Inr df" and "r \<in> set (cells df)"
  shows "length r = length (columns df)"
  using assms read_lines_rectangular
  by (auto simp: read_csv_def Let_def split: option.splits if_splits list.splits)

lemma read_lines_well_formed:
  assumes "list_all (\<lambda>r. length r = length names) rows"
  shows "read_lines names rows = Inr \<lparr>columns = names, cells = rows\<rparr>"
proof -
  from assms have l: "\<And>r. r \<in> set rows \<Longrightarrow> length r = length names"
    by (simp add: list_all_iff)
  then have e: "(case rows of [] \<Rightarrow> length names | r # rest \<Rightarrow> max (length names) (length r))
      = length names"
    by (cases rows) simp_all
  from l have n: "\<not> list_ex (\<lambda>r. length names < length r) rows"
    by (auto simp: list_ex_iff)
  from l have "map (\<lambda>r. drop (length names - length names)
      (r @ replicate (length names - length r) None)) rows = rows"
    by (intro map_idI) simp
  with e n show ?thesis by (simp add: read_lines_def Let_def)
qed

lemma read_csv_well_formed:
  assumes "map_of fs path = Some f" and "well_formed f"
  shows "read_csv path fs = Inr \<lparr>columns = header f, cells = data_lines f\<rparr>"
proof -
  from assms(2) have h: "header f \<noteq> []"
    and l: "list_all (\<lambda>r. length r = length (header f)) (data_lines f)"
    by (simp_all add: well_formed_def)
  from h l have "filter (\<lambda>r. r \<noteq> []) (data_lines f) = data_lines f"
    by (intro filter_True) (auto simp: list_all_iff)
  with assms(1) h read_lines_well_formed [OF l] show ?thesis
    by (simp add: read_csv_def Let_def)
qed

text \<open>
  What \<^verbatim>\<open>read_csv\<close> makes of files that are not as \<^verbatim>\<open>to_csv\<close> leaves them after frames
  with the same columns. Started with a file of four columns and one line, the example
  trial appends its lines of eight fields and ends with \<^verbatim>\<open>ParserError\<close>. Under a header
  of four names, lines of eight fields all along give a frame whose columns are the last
  four fields of each line. A trial in which no patient leaves before the end of the run
  writes a blank line for a header, and ends with \<^verbatim>\<open>EmptyDataError\<close>; the example
  trial, started with such a file, leaves its first line to be read as the header, and
  ends with \<^verbatim>\<open>KeyError\<close>.
\<close>

lemma longer_lines_after_shorter_fail:
  "map_option snd (main example_g example_rnd
     \<lparr>files_of = [(RESULTS_CSV,
        \<lparr>header = map Name SERVICES, data_lines = [[Some 3, Some 1, None, Some 7]]\<rparr>)],
      draws = 0\<rparr>) = Some (Inl ParserError)"
  by code_simp

lemma surplus_fields_are_the_index:
  "read_csv RESULTS_CSV
     [(RESULTS_CSV,
       \<lparr>header = map Name SERVICES,
        data_lines = [[Some 1, Some 2, None, Some 0, Some 0, Some 9, Some 30, Some 3],
                      [Some 2, Some 0, None, Some 0, Some 1, Some 4, Some 8, Some 0]]\<rparr>)] =
     Inr \<lparr>columns = map Name SERVICES,
          cells = [[Some 0, Some 9, Some 30, Some 3], [Some 1, Some 4, Some 8, Some 0]]\<rparr>"
  by code_simp

lemma no_patient_recorded_no_header:
  "map_option (\<lambda>(w, out). (map_of (files_of w) RESULTS_CSV, out))
     (main (example_g\<lparr>sim_duration := 3, warm_up_duration := 3\<rparr>) example_rnd empty_world) =
     Some (Some \<lparr>header = [], data_lines = []\<rparr>, Inl EmptyDataError)"
  by code_simp

lemma first_line_read_as_header:
  "map_option (\<lambda>(w, out). (map_of (files_of w) RESULTS_CSV, out))
     (main example_g example_rnd
        \<lparr>files_of = [(RESULTS_CSV, \<lparr>header = [], data_lines = []\<rparr>)], draws = 0\<rparr>) =
     Some (Some \<lparr>header = [],
                 data_lines = [[Some 1, Some 0, None, Some 0, Some 0, Some 0, Some 7, Some 0],
                               [Some 2, Some 0, None, Some 0, Some 1, Some 4, Some 8, Some 0]]\<rparr>,
           Inl KeyError)"
  by code_simp

section \<open>A trial without runs\<close>

text \<open>
  C5, as amended. With \<^verbatim>\<open>number_of_runs\<close> zero (or negative) no run takes place and
  nothing is written; the program then reads the results file as it finds it: without
  the file it ends with \<^verbatim>\<open>FileNotFoundError\<close>; with a file that \<^verbatim>\<open>read_csv\<close> cannot
  read it ends with the error of \<^verbatim>\<open>read_csv\<close>, and otherwise it prints the percentiles
  of the frame read. For a file with a header and as many fields in every line as in
  the header, these are the percentiles of the rows that earlier program runs left
  there.
\<close>

theorem no_runs_reads_results_file:
  "number_of_runs cfg \<le> 0 \<Longrightarrow>
     main cfg rnd w =
       Some (w, case map_of (files_of w) RESULTS_CSV of
                  None \<Rightarrow> Inl FileNotFoundError
                | Some f \<Rightarrow>
                    (case read_csv RESULTS_CSV (files_of w) of
                       Inl x \<Rightarrow> Inl x
                     | Inr df \<Rightarrow> print_trial_results df))
     \<and> (map_of (files_of w) RESULTS_CSV = Some f \<and> well_formed f \<longrightarrow>
          main cfg rnd w =
            Some (w, print_trial_results \<lparr>columns = header f, cells = data_lines f\<rparr>))"
proof (rule conjI)
  assume n: "number_of_runs cfg \<le> 0"
  then show 1: "main cfg rnd w =
       Some (w, case map_of (files_of w) RESULTS_CSV of
                  None \<Rightarrow> Inl FileNotFoundError
                | Some f \<Rightarrow>
                    (case read_csv RESULTS_CSV (files_of w) of
                       Inl x \<Rightarrow> Inl x
                     | Inr df \<Rightarrow> print_trial_results df))"
    by (cases "map_of (files_of w) RESULTS_CSV")
      (simp_all add: main_def trial_results_def Trial_Results_Calculator_init_def read_csv_def)
  show "map_of (files_of w) RESULTS_CSV = Some f \<and> well_formed f \<longrightarrow>
          main cfg rnd w =
            Some (w, print_trial_results \<lparr>columns = header f, cells = data_lines f\<rparr>)"
  proof
    assume a: "map_of (files_of w) RESULTS_CSV = Some f \<and> well_formed f"
    then have "read_csv RESULTS_CSV (files_of w) =
        Inr \<lparr>columns = header f, cells = data_lines f\<rparr>"
      by (intro read_csv_well_formed) simp_all
    with a 1 show "main cfg rnd w =
            Some (w, print_trial_results \<lparr>columns = header f, cells = data_lines f\<rparr>)"
      by simp
  qed
qed

text \<open>
  Witness for C5: no runs, and a results file with one row.
\<close>

theorem no_runs_reads_results_file_witness:
  "number_of_runs (g_class\<lparr>number_of_runs := 0\<rparr>) \<le> 0
   \<and> well_formed \<lparr>header = map Name SERVICES, data_lines = [[Some 3, Some 1, None, Some 7]]\<rparr>
   \<and> main (g_class\<lparr>number_of_runs := 0\<rparr>) example_rnd
       \<lparr>files_of = [(RESULTS_CSV,
           \<lparr>header = map Name SERVICES, data_lines = [[Some 3, Some 1, None, Some 7]]\<rparr>)],
        draws = 0\<rparr> =
     Some (\<lparr>files_of = [(RESULTS_CSV,
              \<lparr>header = map Name SERVICES, data_lines = [[Some 3, Some 1, None, Some 7]]\<rparr>)],
            draws = 0\<rparr>,
           Inr [(''Registration'', Some 3), (''Triage'', Some 1), (''ED_Assessment'', None),
                (''ACU_Assessment'', Some 7)])"
proof -
  let ?f = "\<lparr>header = map Name SERVICES, data_lines = [[Some 3, Some 1, None, Some 7]]\<rparr>"
  let ?w = "\<lparr>files_of = [(RESULTS_CSV, ?f)], draws = 0\<rparr>"
  have n: "number_of_runs (g_class\<lparr>number_of_runs := 0\<rparr>) \<le> 0" by simp
  have wf: "well_formed ?f" by (simp add: well_formed_def SERVICES_def)
  have a: "map_of (files_of ?w) RESULTS_CSV = Some ?f \<and> well_formed ?f"
    using wf by simp
  have p: "print_trial_results \<lparr>columns = header ?f, cells = data_lines ?f\<rparr> =
      Inr [(''Registration'', Some 3), (''Triage'', Some 1), (''ED_Assessment'', None),
           (''ACU_Assessment'', Some 7)]"
    by code_simp
  from no_runs_reads_results_file [OF n, of example_rnd ?w ?f, THEN conjunct2, THEN mp, OF a] p
  have "main (g_class\<lparr>number_of_runs := 0\<rparr>) example_rnd ?w =
     Some (?w, Inr [(''Registration'', Some 3), (''Triage'', Some 1), (''ED_Assessment'', None),
                (''ACU_Assessment'', Some 7)])"
    by simp
  with n wf show ?thesis by (intro conjI)
qed

text \<open>
  Counterexample to C5 as stated: with the parameters of the source, no runs and no
  results file, the program does not print a result; it ends with
  \<^verbatim>\<open>FileNotFoundError\<close>.
\<close>

theorem no_runs_no_file_fails:
  "main (g_class\<lparr>number_of_runs := 0\<rparr>) example_rnd empty_world
     = Some (empty_world, Inl FileNotFoundError)"
  by code_simp

section \<open>The journey of a patient\<close>

lemma ED_Model_init_service_times:
  assumes "ED_Model_init cfg run csv = Inr m0"
  shows "service_times m0 = zip SERVICES [mean_register cfg, mean_triage cfg,
                                          mean_ed_assess cfg, mean_acu_assess cfg]"
  using assms by (auto simp: ED_Model_init_def Let_def split: sum.splits)

lemma service_times_lookup:
  assumes "ED_Model_init cfg run csv = Inr m0" and "same_setup m0 m"
  shows "map_of (service_times (at_time t m)) ''Registration'' = Some (mean_register cfg)"
    and "map_of (service_times (at_time t m)) ''Triage'' = Some (mean_triage cfg)"
    and "map_of (service_times (at_time t m)) (treatment_of p) = Some (treatment_mean cfg p)"
  using ED_Model_init_service_times [OF assms(1)] assms(2)
  by (simp_all add: same_setup_def at_time_def SERVICES_def treatment_of_def treatment_mean_def)

lemma resume_granted_ok:
  assumes "map_of (service_times m) service = Some mean" and "mean \<noteq> 0"
    and "0 \<le> expovariate (1 / mean) (rnd pos)"
  shows "do_service_granted rnd m pos p service rest start =
           ([Timeout (expovariate (1 / mean) (rnd pos))
               (At_timeout (set_queue_time service (now (env m) - start) p) service rest)],
            None, Suc pos)"
  using assms
  by (simp add: do_service_granted_def sample_and_hold_def reciprocal_def Let_def)

lemma lookup_set_queue_time:
  "lookup_cell (queue_times (set_queue_time k v p)) k = Some v"
  by (simp add: lookup_cell_def set_queue_time_def update_conv')

lemma now_at_time: "now (env (at_time t m)) = t"
  by (simp add: at_time_def)

lemma journey_trace:
  assumes init: "ED_Model_init cfg run csv = Inr m0" and same: "same_setup m0 m"
    and means: "mean_register cfg \<noteq> 0" "mean_triage cfg \<noteq> 0" "treatment_mean cfg p \<noteq> 0"
    and d1: "0 \<le> expovariate (1 / mean_register cfg) (rnd n1)"
    and d2: "0 \<le> expovariate (1 / mean_triage cfg) (rnd n3)"
    and d3: "0 \<le> expovariate (1 / treatment_mean cfg p) (rnd n5)"
  shows "trace cfg rnd m [(t0, n0), (t1, n1), (t2, n2), (t3, n3), (t4, n4), (t5, n5), (t6, n6)]
           (Journey p) =
     [[Asks ''Registration''],
      [Holds ''Registration'' (expovariate (1 / mean_register cfg) (rnd n1)) (Some (t1 - t0))],
      [Frees ''Registration'', Asks ''Triage''],
      [Holds ''Triage'' (expovariate (1 / mean_triage cfg) (rnd n3)) (Some (t3 - t2))],
      [Frees ''Triage'', Asks (treatment_of p)],
      [Holds (treatment_of p) (expovariate (1 / treatment_mean cfg p) (rnd n5)) (Some (t5 - t4))],
      Frees (treatment_of p) #
        (if is_warming_up cfg (at_time t6 m) then []
         else [Records (queue_times
           (set_queue_time ''ExitTime'' t6
             (set_queue_time (treatment_of p) (t5 - t4)
               (set_queue_time ''ExitTime'' t4
                 (set_queue_time ''Triage'' (t3 - t2)
                   (set_queue_time ''ExitTime'' t2
                     (set_queue_time ''Registration'' (t1 - t0) p)))))))])]"
proof -
  note st = service_times_lookup [OF init same]
  have ps: "process_services q = [''Registration'', ''Triage'', treatment_of q]" for q
    by (simp add: process_services_def SERVICES_def treatment_of_def Let_def)
  have tr [simp]: "treatment_of (set_queue_time k v q) = treatment_of q" for k v q
    by (simp add: treatment_of_def set_queue_time_def)
  have r1: "do_service_granted rnd (at_time t1 m) n1 p ''Registration'' rest t0 =
      ([Timeout (expovariate (1 / mean_register cfg) (rnd n1))
         (At_timeout (set_queue_time ''Registration'' (t1 - t0) p) ''Registration'' rest)],
       None, Suc n1)" for rest
    using resume_granted_ok [where m = "at_time t1 m" and rnd = rnd and pos = n1, OF st(1) means(1) d1] by (simp add: now_at_time)
  have r2: "do_service_granted rnd (at_time t3 m) n3 q ''Triage'' rest t2 =
      ([Timeout (expovariate (1 / mean_triage cfg) (rnd n3))
         (At_timeout (set_queue_time ''Triage'' (t3 - t2) q) ''Triage'' rest)],
       None, Suc n3)" for rest q
    using resume_granted_ok [where m = "at_time t3 m" and rnd = rnd and pos = n3, OF st(2) means(2) d2] by (simp add: now_at_time)
  have r3: "do_service_granted rnd (at_time t5 m) n5 q (treatment_of p) rest t4 =
      ([Timeout (expovariate (1 / treatment_mean cfg p) (rnd n5))
         (At_timeout (set_queue_time (treatment_of p) (t5 - t4) q) (treatment_of p) rest)],
       None, Suc n5)" for rest q
    using resume_granted_ok [where m = "at_time t5 m" and rnd = rnd and pos = n5, OF st(3) means(3) d3] by (simp add: now_at_time)
  show ?thesis
    by (simp add: r1 r2 r3 ps journey_loop_def do_service_begin_def suspended_def
        now_at_time lookup_set_queue_time Let_def)
qed

lemma release_on_exception:
  "case resume cfg rnd m pos (At_request p service rest start) of
     (effects, raised, pos') \<Rightarrow> raised \<noteq> None \<longrightarrow> effects = [Release service]"
  by (simp add: do_service_granted_def sample_and_hold_def reciprocal_def Let_def
      split: option.splits)

text \<open>
  C6. For every patient, in any state of a run of a model built by
  \<^verbatim>\<open>ED_Model.__init__\<close>, whenever the engine resumes the journey (at clock readings
  \<open>t0\<close>, ..., \<open>t6\<close>) and while the means are not zero and the sampled durations not
  negative: the journey asks for the pool of Registration; once granted, its
  \<^verbatim>\<open>queue_times\<close> show \<open>t1 - t0\<close> for Registration and it holds the resource for
  \<^verbatim>\<open>expovariate(1.0 / mean)\<close> with the mean configured for Registration; resumed, it
  frees Registration and asks for Triage, in the same way; then it does the same at
  ED_Assessment or, if the patient's flag is set, at ACU_Assessment, and at nothing
  else; then it frees that resource and its loop ends. If an exception ends
  \<^verbatim>\<open>do_service\<close> after the request was granted, the resource is released as well.
\<close>

theorem journey_visits_services_in_order:
  "(ED_Model_init cfg run csv = Inr m0 \<and> same_setup m0 m \<and>
    mean_register cfg \<noteq> 0 \<and> mean_triage cfg \<noteq> 0 \<and> treatment_mean cfg p \<noteq> 0 \<and>
    0 \<le> expovariate (1 / mean_register cfg) (rnd n1) \<and>
    0 \<le> expovariate (1 / mean_triage cfg) (rnd n3) \<and>
    0 \<le> expovariate (1 / treatment_mean cfg p) (rnd n5) \<longrightarrow>
    trace cfg rnd m [(t0, n0), (t1, n1), (t2, n2), (t3, n3), (t4, n4), (t5, n5), (t6, n6)]
        (Journey p) =
     [[Asks ''Registration''],
      [Holds ''Registration'' (expovariate (1 / mean_register cfg) (rnd n1)) (Some (t1 - t0))],
      [Frees ''Registration'', Asks ''Triage''],
      [Holds ''Triage'' (expovariate (1 / mean_triage cfg) (rnd n3)) (Some (t3 - t2))],
      [Frees ''Triage'', Asks (treatment_of p)],
      [Holds (treatment_of p) (expovariate (1 / treatment_mean cfg p) (rnd n5)) (Some (t5 - t4))],
      Frees (treatment_of p) #
        (if is_warming_up cfg (at_time t6 m) then []
         else [Records (queue_times
           (set_queue_time ''ExitTime'' t6
             (set_queue_time (treatment_of p) (t5 - t4)
               (set_queue_time ''ExitTime'' t4
                 (set_queue_time ''Triage'' (t3 - t2)
                   (set_queue_time ''ExitTime'' t2
                     (set_queue_time ''Registration'' (t1 - t0) p)))))))])])
   \<and> (case resume cfg rnd m pos (At_request p service rest start) of
        (effects, raised, pos') \<Rightarrow> raised \<noteq> None \<longrightarrow> effects = [Release service])"
proof (rule conjI, rule impI)
  assume "ED_Model_init cfg run csv = Inr m0 \<and> same_setup m0 m \<and>
    mean_register cfg \<noteq> 0 \<and> mean_triage cfg \<noteq> 0 \<and> treatment_mean cfg p \<noteq> 0 \<and>
    0 \<le> expovariate (1 / mean_register cfg) (rnd n1) \<and>
    0 \<le> expovariate (1 / mean_triage cfg) (rnd n3) \<and>
    0 \<le> expovariate (1 / treatment_mean cfg p) (rnd n5)"
  then show "trace cfg rnd m [(t0, n0), (t1, n1), (t2, n2), (t3, n3), (t4, n4), (t5, n5), (t6, n6)]
        (Journey p) =
     [[Asks ''Registration''],
      [Holds ''Registration'' (expovariate (1 / mean_register cfg) (rnd n1)) (Some (t1 - t0))],
      [Frees ''Registration'', Asks ''Triage''],
      [Holds ''Triage'' (expovariate (1 / mean_triage cfg) (rnd n3)) (Some (t3 - t2))],
      [Frees ''Triage'', Asks (treatment_of p)],
      [Holds (treatment_of p) (expovariate (1 / treatment_mean cfg p) (rnd n5)) (Some (t5 - t4))],
      Frees (treatment_of p) #
        (if is_warming_up cfg (at_time t6 m) then []
         else [Records (queue_times
           (set_queue_time ''ExitTime'' t6
             (set_queue_time (treatment_of p) (t5 - t4)
               (set_queue_time ''ExitTime'' t4
                 (set_queue_time ''Triage'' (t3 - t2)
                   (set_queue_time ''ExitTime'' t2
                     (set_queue_time ''Registration'' (t1 - t0) p)))))))])]"
    by (intro journey_trace [where ?m0.0 = m0 and run = run and csv = csv]) simp_all
next
  show "case resume cfg rnd m pos (At_request p service rest start) of
        (effects, raised, pos') \<Rightarrow> raised \<noteq> None \<longrightarrow> effects = [Release service]"
    by (rule release_on_exception)
qed

text \<open>
  Witness for C6: the second patient of the example run, who waits four minutes for
  registration; and a registration with a mean service time of zero, where the division
  raises and the resource is released.
\<close>

theorem journey_visits_services_in_order_witness:
  "(\<exists>m0. ED_Model_init example_g 0 RESULTS_CSV = Inr m0 \<and> same_setup m0 m0 \<and>
      trace example_g example_rnd m0 [(1, 0), (5, 5), (6, 0), (6, 7), (7, 0), (7, 9), (8, 0)]
          (Journey example_patient) =
        [[Asks ''Registration''],
         [Holds ''Registration'' 1 (Some 4)],
         [Frees ''Registration'', Asks ''Triage''],
         [Holds ''Triage'' 1 (Some 0)],
         [Frees ''Triage'', Asks ''ED_Assessment''],
         [Holds ''ED_Assessment'' 1 (Some 0)],
         [Frees ''ED_Assessment'',
          Records [(''P_ID'', Some 2), (''ED_Assessment'', Some 0), (''ACU_Assessment'', None),
                   (''run_number'', Some 0), (''ArrivalTime'', Some 1), (''Registration'', Some 4),
                   (''ExitTime'', Some 8), (''Triage'', Some 0)]]])
   \<and> resume example_g example_rnd example_model 0 (At_request example_patient ''Registration'' [] 0) =
       ([Release ''Registration''], Some ZeroDivisionError, 0)"
proof -
  have "(case ED_Model_init example_g 0 RESULTS_CSV of Inl x \<Rightarrow> False | Inr m0 \<Rightarrow> True) = True"
    by code_simp
  from this [THEN eqTrueE, THEN returned] obtain m0 where
    i: "ED_Model_init example_g 0 RESULTS_CSV = Inr m0" by (elim exE conjE)
  have h: "ED_Model_init example_g 0 RESULTS_CSV = Inr m0 \<and> same_setup m0 m0 \<and>
    mean_register example_g \<noteq> 0 \<and> mean_triage example_g \<noteq> 0 \<and>
    treatment_mean example_g example_patient \<noteq> 0 \<and>
    0 \<le> expovariate (1 / mean_register example_g) (example_rnd 5) \<and>
    0 \<le> expovariate (1 / mean_triage example_g) (example_rnd 7) \<and>
    0 \<le> expovariate (1 / treatment_mean example_g example_patient) (example_rnd 9)"
    using i by (simp add: same_setup_def example_g_def treatment_mean_def expovariate_def
        example_rnd_def)
  note t = journey_visits_services_in_order [where cfg = example_g and run = 0 and csv = RESULTS_CSV and ?m0.0 = m0 and m = m0
      and p = example_patient and rnd = example_rnd
      and ?t0.0 = 1 and ?n0.0 = 0 and ?t1.0 = 5 and ?n1.0 = 5 and ?t2.0 = 6 and ?n2.0 = 0
      and ?t3.0 = 6 and ?n3.0 = 7 and ?t4.0 = 7 and ?n4.0 = 0 and ?t5.0 = 7 and ?n5.0 = 9
      and ?t6.0 = 8 and ?n6.0 = 0, THEN conjunct1, THEN mp, OF h]
  have e: "treatment_of example_patient = ''ED_Assessment''"
    "expovariate (1 / mean_register example_g) (example_rnd 5) = 1"
    "expovariate (1 / mean_triage example_g) (example_rnd 7) = 1"
    "expovariate (1 / treatment_mean example_g example_patient) (example_rnd 9) = 1"
    "is_warming_up example_g (at_time 8 m0) = False"
    by (simp_all add: example_patient_def treatment_of_def treatment_mean_def set_queue_time_def
        ED_Patient_init_def uniform_def example_g_def example_rnd_def expovariate_def
        is_warming_up_def at_time_def)
  have q: "queue_times
           (set_queue_time ''ExitTime'' 8
             (set_queue_time ''ED_Assessment'' 0
               (set_queue_time ''ExitTime'' 7
                 (set_queue_time ''Triage'' 0
                   (set_queue_time ''ExitTime'' 6
                     (set_queue_time ''Registration'' 4 example_patient)))))) =
        [(''P_ID'', Some 2), (''ED_Assessment'', Some 0), (''ACU_Assessment'', None),
         (''run_number'', Some 0), (''ArrivalTime'', Some 1), (''Registration'', Some 4),
         (''ExitTime'', Some 8), (''Triage'', Some 0)]"
    by (simp add: example_patient_def set_queue_time_def ED_Patient_init_def)
  have 1: "trace example_g example_rnd m0 [(1, 0), (5, 5), (6, 0), (6, 7), (7, 0), (7, 9), (8, 0)]
          (Journey example_patient) =
        [[Asks ''Registration''],
         [Holds ''Registration'' 1 (Some 4)],
         [Frees ''Registration'', Asks ''Triage''],
         [Holds ''Triage'' 1 (Some 0)],
         [Frees ''Triage'', Asks ''ED_Assessment''],
         [Holds ''ED_Assessment'' 1 (Some 0)],
         [Frees ''ED_Assessment'',
          Records [(''P_ID'', Some 2), (''ED_Assessment'', Some 0), (''ACU_Assessment'', None),
                   (''run_number'', Some 0), (''ArrivalTime'', Some 1), (''Registration'', Some 4),
                   (''ExitTime'', Some 8), (''Triage'', Some 0)]]]"
    using t by (simp add: e q del: trace.simps)
  have r: "resume example_g example_rnd example_model 0
             (At_request example_patient ''Registration'' [] 0) =
           ([Release ''Registration''], Some ZeroDivisionError, 0)"
    by (simp add: do_service_granted_def sample_and_hold_def reciprocal_def example_model_def)
  from i h 1 have "\<exists>m0. ED_Model_init example_g 0 RESULTS_CSV = Inr m0 \<and> same_setup m0 m0 \<and>
      trace example_g example_rnd m0 [(1, 0), (5, 5), (6, 0), (6, 7), (7, 0), (7, 9), (8, 0)]
          (Journey example_patient) =
        [[Asks ''Registration''],
         [Holds ''Registration'' 1 (Some 4)],
         [Frees ''Registration'', Asks ''Triage''],
         [Holds ''Triage'' 1 (Some 0)],
         [Frees ''Triage'', Asks ''ED_Assessment''],
         [Holds ''ED_Assessment'' 1 (Some 0)],
         [Frees ''ED_Assessment'',
          Records [(''P_ID'', Some 2), (''ED_Assessment'', Some 0), (''ACU_Assessment'', None),
                   (''run_number'', Some 0), (''ArrivalTime'', Some 1), (''Registration'', Some 4),
                   (''ExitTime'', Some 8), (''Triage'', Some 0)]]]"
    by (elim conjE) (intro exI conjI; assumption)
  with r show ?thesis by (rule conjI [rotated])
qed

section \<open>Invalid configurations\<close>

text \<open>
  C8, as amended. A staffing level that is not positive makes \<^verbatim>\<open>ED_Model.__init__\<close>
  fail, when it builds the pools; so the program fails when it constructs the model of
  its first run, before any run has started and with the files untouched, provided
  \<^verbatim>\<open>number_of_runs\<close> is positive. Nothing checks the means, the probability, the
  durations or the number of runs at construction.
\<close>

theorem bad_capacity_fails_at_construction:
  "number_of_receptionists cfg \<le> 0 \<or> number_of_nurses cfg \<le> 0 \<or>
   number_of_ed_doctors cfg \<le> 0 \<or> number_of_acu_doctors cfg \<le> 0 \<Longrightarrow>
     ED_Model_init cfg run csv = Inl ConfigurationError \<and>
     (0 < number_of_runs cfg \<longrightarrow> main cfg rnd w = Some (w, Inl ConfigurationError))"
proof -
  assume a: "number_of_receptionists cfg \<le> 0 \<or> number_of_nurses cfg \<le> 0 \<or>
   number_of_ed_doctors cfg \<le> 0 \<or> number_of_acu_doctors cfg \<le> 0"
  then have i: "ED_Model_init cfg run csv = Inl ConfigurationError" for run csv
    by (auto simp: ED_Model_init_def new_pool_def)
  have "main cfg rnd w = Some (w, Inl ConfigurationError)" if "0 < number_of_runs cfg"
  proof -
    from that have "[0 ..< nat (number_of_runs cfg)] = 0 # [1 ..< nat (number_of_runs cfg)]"
      by (simp add: upt_conv_Cons)
    with i show ?thesis by (simp add: main_def)
  qed
  with i show ?thesis by simp
qed

text \<open>
  Witness for C8: the example setting with no nurses.
\<close>

theorem bad_capacity_fails_at_construction_witness:
  "number_of_nurses (example_g\<lparr>number_of_nurses := 0\<rparr>) \<le> 0
   \<and> 0 < number_of_runs (example_g\<lparr>number_of_nurses := 0\<rparr>)
   \<and> ED_Model_init (example_g\<lparr>number_of_nurses := 0\<rparr>) 0 RESULTS_CSV = Inl ConfigurationError
   \<and> main (example_g\<lparr>number_of_nurses := 0\<rparr>) example_rnd empty_world =
       Some (empty_world, Inl ConfigurationError)"
proof -
  let ?g = "example_g\<lparr>number_of_nurses := 0\<rparr>"
  have a: "number_of_receptionists ?g \<le> 0 \<or> number_of_nurses ?g \<le> 0 \<or>
      number_of_ed_doctors ?g \<le> 0 \<or> number_of_acu_doctors ?g \<le> 0" by simp
  have r: "0 < number_of_runs ?g" by (simp add: example_g_def)
  from bad_capacity_fails_at_construction [OF a, of 0 RESULTS_CSV example_rnd empty_world] r show ?thesis by simp
qed

text \<open>
  Counterexample to C8 as stated: the example setting with a probability of 2 is an
  invalid configuration in the sense of the claim, and the program constructs its model,
  runs and prints percentiles.
\<close>

theorem bad_probability_runs:
  "invalid_configuration (example_g\<lparr>prob_acu := 2\<rparr>) \<and>
   map_option snd (main (example_g\<lparr>prob_acu := 2\<rparr>) example_rnd empty_world) =
     Some (Inr [(''Registration'', Some (18 / 5)), (''Triage'', Some 0),
                (''ED_Assessment'', None), (''ACU_Assessment'', Some 0)])"
  by code_simp

section \<open>Percentiles\<close>

text \<open>
  C9. For a service whose pooled queueing times are 1, 2, ..., 10, the reported 90th
  percentile (\<^verbatim>\<open>PERCENTILE / 100\<close> as the quantile, linear interpolation) is 9.1.
\<close>

theorem percentile_scenario:
  "quantile (map Some [1, 2, 3, 4, 5, 6, 7, 8, 9, 10]) (PERCENTILE / 100) = Some (91 / 10)"
  by (simp add: quantile_def present_def PERCENTILE_def)

section \<open>The results file accumulates\<close>

lemma ED_Model_run_records:
  assumes init: "ED_Model_init cfg run RESULTS_CSV = Inr m"
    and run: "ED_Model_run cfg rnd m w = Some (Inr w')"
    and f: "map_of (files_of w) RESULTS_CSV = Some f"
  shows "\<exists>new. map_of (files_of w') RESULTS_CSV = Some (f\<lparr>data_lines := data_lines f @ new\<rparr>) \<and>
           list_all (\<lambda>r. length r = 8) new"
proof -
  from run obtain fired m' pos' where s: "simulate cfg rnd m (draws w) = Some (fired, Inr (m', pos'))"
    and w': "w' = \<lparr>files_of = store_results m' (files_of w), draws = pos'\<rparr>"
    by (auto simp: ED_Model_run_def split: option.splits sum.splits prod.splits)
  from simulate_inv [OF init s] have "same_setup m m'" by simp
  with ED_Model_init_inv [OF init] have "results_csv_filename m' = RESULTS_CSV"
    by (simp add: same_setup_def)
  with f w' have "map_of (files_of w') RESULTS_CSV =
      Some (f\<lparr>data_lines := data_lines f @ cells (DataFrame_of (queing_times m'))\<rparr>)"
    by (simp add: store_results_exists update_conv')
  moreover from recorded_rows [OF simulate_journeys [OF init s]]
  have "list_all (\<lambda>r. length r = 8) (cells (DataFrame_of (queing_times m')))"
    by (simp add: list_all_iff)
  ultimately show ?thesis by blast
qed

lemma run_all_records:
  "map_of (files_of w) RESULTS_CSV = Some f \<Longrightarrow> run_all cfg rnd runs w = Some (w', x) \<Longrightarrow>
     \<exists>new. map_of (files_of w') RESULTS_CSV = Some (f\<lparr>data_lines := data_lines f @ new\<rparr>) \<and>
       list_all (\<lambda>r. length r = 8) new"
proof (induction runs arbitrary: w f)
  case Nil
  then have "map_of (files_of w') RESULTS_CSV = Some (f\<lparr>data_lines := data_lines f @ []\<rparr>) \<and>
      list_all (\<lambda>r. length r = 8) ([] :: real option list list)" by simp
  then show ?case by blast
next
  case (Cons run runs)
  have same: "\<exists>new. map_of (files_of w) RESULTS_CSV = Some (f\<lparr>data_lines := data_lines f @ new\<rparr>) \<and>
      list_all (\<lambda>r. length r = 8) new"
    using Cons.prems(1) by (intro exI [of _ "[]"]) simp
  show ?case
  proof (cases "ED_Model_init cfg run RESULTS_CSV")
    case (Inl e)
    with Cons.prems(2) same show ?thesis by auto
  next
    case (Inr m)
    show ?thesis
    proof (cases "ED_Model_run cfg rnd m w")
      case None
      with Inr Cons.prems(2) show ?thesis by simp
    next
      case (Some r)
      show ?thesis
      proof (cases r)
        case (Inl e)
        with Some Inr Cons.prems(2) same show ?thesis by auto
      next
        case r: (Inr w1)
        from ED_Model_run_records [OF Inr Some [unfolded r] Cons.prems(1)]
        obtain a where a: "map_of (files_of w1) RESULTS_CSV = Some (f\<lparr>data_lines := data_lines f @ a\<rparr>)"
          and a8: "list_all (\<lambda>r. length r = 8) a"
          by blast
        from Some r Inr Cons.prems(2) have "run_all cfg rnd runs w1 = Some (w', x)" by simp
        from Cons.IH [OF a this]
        obtain b where "map_of (files_of w') RESULTS_CSV =
            Some (f\<lparr>data_lines := data_lines f @ a\<rparr>
                  \<lparr>data_lines := data_lines (f\<lparr>data_lines := data_lines f @ a\<rparr>) @ b\<rparr>)"
          and b8: "list_all (\<lambda>r. length r = 8) b"
          by blast
        then have "map_of (files_of w') RESULTS_CSV = Some (f\<lparr>data_lines := data_lines f @ (a @ b)\<rparr>)"
          by simp
        moreover from a8 b8 have "list_all (\<lambda>r. length r = 8) (a @ b)" by simp
        ultimately show ?thesis by blast
      qed
    qed
  qed
qed

lemma well_formed_grows:
  assumes "well_formed old" and "length (header old) = 8" and "list_all (\<lambda>r. length r = 8) new"
  shows "well_formed (old\<lparr>data_lines := data_lines old @ new\<rparr>)"
  using assms by (simp add: well_formed_def)

lemma read_lines_frame:
  "read_lines names rows = Inr df \<Longrightarrow> columns df = names \<and> length (cells df) = length rows"
  by (auto simp: read_lines_def Let_def split: if_splits)

lemma no_name_among_cells: "index_of (Name c) (map Cell r) = None"
  by (induction r) auto

lemma printed_needs_names:
  assumes "print_trial_results df = Inr out"
  shows "index_of (Name ''Registration'') (columns df) \<noteq> None"
proof
  assume "index_of (Name ''Registration'') (columns df) = None"
  then have "column df ''Registration'' = Inl KeyError" by (simp add: column_def)
  then have "print_trial_results df = Inl KeyError"
    by (simp add: print_trial_results_def SERVICES_def Let_def)
  with assms show False by simp
qed

lemma statistics_cover_every_line:
  assumes f: "map_of fs path = Some f" and d: "read_csv path fs = Inr df"
    and p: "print_trial_results df = Inr out"
  shows "header f \<noteq> [] \<and> columns df = header f \<and>
         length (cells df) = length (filter (\<lambda>r. r \<noteq> []) (data_lines f))"
proof (cases "header f = []")
  case False
  with f d have "read_lines (header f) (filter (\<lambda>r. r \<noteq> []) (data_lines f)) = Inr df"
    by (simp add: read_csv_def Let_def)
  from read_lines_frame [OF this] False show ?thesis by simp
next
  case True
  with f d obtain r rest where "read_lines (map Cell r) rest = Inr df"
    by (auto simp: read_csv_def Let_def split: list.splits)
  from read_lines_frame [OF this] have "columns df = map Cell r" by simp
  with printed_needs_names [OF p] no_name_among_cells [of "''Registration''" r]
  show ?thesis by simp
qed

text \<open>
  C10. \<^verbatim>\<open>store_results\<close> adds the rows of the run at the end of a results file that
  exists, leaving its header and the lines before as they were, and writes header and
  rows when there is no file. So when the program starts with a results file \<open>old\<close> and
  prints percentiles, the file then holds the lines of \<open>old\<close> followed by new ones, each
  of eight fields, and the percentiles printed are those of the frame that
  \<^verbatim>\<open>read_csv\<close> makes of all these lines: its columns are named by the header of
  \<open>old\<close>, and it has one row for every line of \<open>old\<close> that is not blank and for every
  new line. If \<open>old\<close> is as the program leaves a file (a header of eight names and eight
  fields in every line), so is the file afterwards, and the rows of the frame are the
  lines themselves, those of \<open>old\<close> first: the percentiles are those of the rows of
  earlier program runs and of this one. Each column the statistics read from such a
  file is the column of \<open>old\<close> followed by the new cells.
\<close>

theorem results_file_accumulates:
  "(map_of fs (results_csv_filename m) = Some f \<longrightarrow>
      store_results m fs =
        AList.update (results_csv_filename m)
          (f\<lparr>data_lines := data_lines f @ cells (DataFrame_of (queing_times m))\<rparr>) fs)
   \<and> (map_of fs (results_csv_filename m) = None \<longrightarrow>
      store_results m fs =
        AList.update (results_csv_filename m)
          \<lparr>header = columns (DataFrame_of (queing_times m)),
           data_lines = cells (DataFrame_of (queing_times m))\<rparr> fs)
   \<and> (map_of (files_of w) RESULTS_CSV = Some old \<and> main cfg rnd w = Some (w', Inr out) \<longrightarrow>
      (\<exists>new df.
         map_of (files_of w') RESULTS_CSV = Some (old\<lparr>data_lines := data_lines old @ new\<rparr>) \<and>
         list_all (\<lambda>r. length r = 8) new \<and>
         read_csv RESULTS_CSV (files_of w') = Inr df \<and> print_trial_results df = Inr out \<and>
         columns df = header old \<and>
         length (cells df) = length (filter (\<lambda>r. r \<noteq> []) (data_lines old)) + length new \<and>
         (well_formed old \<and> length (header old) = 8 \<longrightarrow>
            well_formed (old\<lparr>data_lines := data_lines old @ new\<rparr>) \<and>
            df = \<lparr>columns = header old, cells = data_lines old @ new\<rparr>)))
   \<and> (map_of fs' path = Some (old\<lparr>data_lines := data_lines old @ new\<rparr>) \<and>
      well_formed (old\<lparr>data_lines := data_lines old @ new\<rparr>) \<and>
      index_of (Name c) (header old) = Some i \<longrightarrow>
      (\<exists>df. read_csv path fs' = Inr df \<and>
         column df c = Inr (map (cell_at i) (data_lines old) @ map (cell_at i) new)))"
proof (rule conjI [OF _ conjI [OF _ conjI]]; rule impI)
  assume "map_of fs (results_csv_filename m) = Some f"
  then show "store_results m fs =
        AList.update (results_csv_filename m)
          (f\<lparr>data_lines := data_lines f @ cells (DataFrame_of (queing_times m))\<rparr>) fs"
    by (rule store_results_exists)
next
  assume "map_of fs (results_csv_filename m) = None"
  then show "store_results m fs =
        AList.update (results_csv_filename m)
          \<lparr>header = columns (DataFrame_of (queing_times m)),
           data_lines = cells (DataFrame_of (queing_times m))\<rparr> fs"
    by (rule store_results_new)
next
  assume a: "map_of (files_of w) RESULTS_CSV = Some old \<and> main cfg rnd w = Some (w', Inr out)"
  then have r: "run_all cfg rnd [0 ..< nat (number_of_runs cfg)] w = Some (w', None)"
    and t: "trial_results (files_of w') = Inr out"
    by (auto simp: main_def split: option.splits prod.splits)
  from a run_all_records [OF _ r]
  obtain new where
    n: "map_of (files_of w') RESULTS_CSV = Some (old\<lparr>data_lines := data_lines old @ new\<rparr>)"
    and n8: "list_all (\<lambda>r. length r = 8) new"
    by blast
  from t obtain df where d: "read_csv RESULTS_CSV (files_of w') = Inr df"
    and p: "print_trial_results df = Inr out"
    by (auto simp: trial_results_def Trial_Results_Calculator_init_def split: sum.splits)
  have "well_formed old \<and> length (header old) = 8 \<longrightarrow>
            well_formed (old\<lparr>data_lines := data_lines old @ new\<rparr>) \<and>
            df = \<lparr>columns = header old, cells = data_lines old @ new\<rparr>"
  proof
    assume "well_formed old \<and> length (header old) = 8"
    with n8 have wf: "well_formed (old\<lparr>data_lines := data_lines old @ new\<rparr>)"
      by (intro well_formed_grows) simp_all
    from read_csv_well_formed [OF n wf] d wf
    show "well_formed (old\<lparr>data_lines := data_lines old @ new\<rparr>) \<and>
            df = \<lparr>columns = header old, cells = data_lines old @ new\<rparr>" by simp
  qed
  moreover from n8 have "filter (\<lambda>r. r \<noteq> []) new = new"
    by (intro filter_True) (auto simp: list_all_iff)
  with statistics_cover_every_line [OF n d p]
  have "columns df = header old \<and>
      length (cells df) = length (filter (\<lambda>r. r \<noteq> []) (data_lines old)) + length new"
    by simp
  ultimately show "\<exists>new df.
         map_of (files_of w') RESULTS_CSV = Some (old\<lparr>data_lines := data_lines old @ new\<rparr>) \<and>
         list_all (\<lambda>r. length r = 8) new \<and>
         read_csv RESULTS_CSV (files_of w') = Inr df \<and> print_trial_results df = Inr out \<and>
         columns df = header old \<and>
         length (cells df) = length (filter (\<lambda>r. r \<noteq> []) (data_lines old)) + length new \<and>
         (well_formed old \<and> length (header old) = 8 \<longrightarrow>
            well_formed (old\<lparr>data_lines := data_lines old @ new\<rparr>) \<and>
            df = \<lparr>columns = header old, cells = data_lines old @ new\<rparr>)"
    using n n8 d p by blast
next
  assume a: "map_of fs' path = Some (old\<lparr>data_lines := data_lines old @ new\<rparr>) \<and>
      well_formed (old\<lparr>data_lines := data_lines old @ new\<rparr>) \<and>
      index_of (Name c) (header old) = Some i"
  then have "read_csv path fs' = Inr \<lparr>columns = header old, cells = data_lines old @ new\<rparr>"
    using read_csv_well_formed [of fs' path "old\<lparr>data_lines := data_lines old @ new\<rparr>"]
    by simp
  moreover from a have "column \<lparr>columns = header old, cells = data_lines old @ new\<rparr> c =
        Inr (map (cell_at i) (data_lines old) @ map (cell_at i) new)"
    by (simp add: column_def)
  ultimately show "\<exists>df. read_csv path fs' = Inr df \<and>
         column df c = Inr (map (cell_at i) (data_lines old) @ map (cell_at i) new)"
    by simp
qed

text \<open>
  Witness for C10: a model with one patient stores into an existing file and into none;
  the example trial, started with a file of eight columns and one line, leaves three
  lines of eight fields and prints the percentiles of the three rows; the registration
  column of a file that grew by one line.
\<close>

theorem results_file_accumulates_witness:
  "store_results example_model [(RESULTS_CSV, example_file)] =
     [(RESULTS_CSV, example_file\<lparr>data_lines := data_lines example_file @ [[Some 1, Some 4]]\<rparr>)]
   \<and> store_results example_model [] =
     [(RESULTS_CSV,
       \<lparr>header = [Name ''P_ID'', Name ''Registration''], data_lines = [[Some 1, Some 4]]\<rparr>)]
   \<and> well_formed example_file \<and> length (header example_file) = 8
   \<and> (\<exists>w' out new df.
        main example_g example_rnd \<lparr>files_of = [(RESULTS_CSV, example_file)], draws = 0\<rparr> =
          Some (w', Inr out) \<and>
        map_of (files_of w') RESULTS_CSV =
          Some (example_file\<lparr>data_lines := data_lines example_file @ new\<rparr>) \<and>
        list_all (\<lambda>r. length r = 8) new \<and>
        read_csv RESULTS_CSV (files_of w') = Inr df \<and> print_trial_results df = Inr out \<and>
        well_formed (example_file\<lparr>data_lines := data_lines example_file @ new\<rparr>) \<and>
        df = \<lparr>columns = header example_file, cells = data_lines example_file @ new\<rparr> \<and>
        length new = 2 \<and>
        out = [(''Registration'', Some 8), (''Triage'', Some (12 / 5)),
               (''ED_Assessment'', Some (8 / 5)), (''ACU_Assessment'', None)])
   \<and> (\<exists>df. read_csv RESULTS_CSV
              [(RESULTS_CSV, example_file\<lparr>data_lines := data_lines example_file @
                  [[Some 2, Some 0, None, Some 0, Some 1, Some 4, Some 8, Some 0]]\<rparr>)] = Inr df \<and>
           column df ''Registration'' = Inr [Some 9, Some 4])"
proof -
  let ?w = "\<lparr>files_of = [(RESULTS_CSV, example_file)], draws = 0\<rparr>"
  have a: "map_of [(RESULTS_CSV, example_file)] (results_csv_filename example_model) = Some example_file"
    by (simp add: example_model_def)
  have b: "map_of [] (results_csv_filename example_model) = (None :: csv_file option)" by simp
  have wf0: "well_formed example_file \<and> length (header example_file) = 8"
    by (simp add: well_formed_def example_file_def)
  have "(case main example_g example_rnd ?w of
           None \<Rightarrow> False
         | Some (w', r) \<Rightarrow>
             (case r of
                Inl x \<Rightarrow> False
              | Inr out \<Rightarrow>
                  out = [(''Registration'', Some 8), (''Triage'', Some (12 / 5)),
                         (''ED_Assessment'', Some (8 / 5)), (''ACU_Assessment'', None)] \<and>
                  (case map_of (files_of w') RESULTS_CSV of
                     None \<Rightarrow> False
                   | Some f \<Rightarrow> length (data_lines f) = 3))) = True"
    by code_simp
  from this [THEN eqTrueE, THEN returned_some] obtain w' r where
    m: "main example_g example_rnd ?w = Some (w', r)"
    and "case r of
                Inl x \<Rightarrow> False
              | Inr out \<Rightarrow>
                  out = [(''Registration'', Some 8), (''Triage'', Some (12 / 5)),
                         (''ED_Assessment'', Some (8 / 5)), (''ACU_Assessment'', None)] \<and>
                  (case map_of (files_of w') RESULTS_CSV of
                     None \<Rightarrow> False
                   | Some f \<Rightarrow> length (data_lines f) = 3)"
    by (elim exE conjE)
  from this(2) [THEN returned] obtain out where
    r: "r = Inr out"
    and out: "out = [(''Registration'', Some 8), (''Triage'', Some (12 / 5)),
                         (''ED_Assessment'', Some (8 / 5)), (''ACU_Assessment'', None)]"
    and len: "case map_of (files_of w') RESULTS_CSV of
                     None \<Rightarrow> False
                   | Some f \<Rightarrow> length (data_lines f) = 3"
    by (elim exE conjE)
  have c: "map_of (files_of ?w) RESULTS_CSV = Some example_file \<and>
           main example_g example_rnd ?w = Some (w', Inr out)"
    using m r by simp
  have d: "index_of (Name ''Registration'') (header example_file) = Some 5"
    by (simp add: example_file_def)
  let ?grown = "example_file\<lparr>data_lines := data_lines example_file @
      [[Some 2, Some 0, None, Some 0, Some 1, Some 4, Some 8, Some 0]]\<rparr>"
  have g: "map_of [(RESULTS_CSV, ?grown)] RESULTS_CSV = Some ?grown \<and> well_formed ?grown \<and>
      index_of (Name ''Registration'') (header example_file) = Some 5"
    using d by (simp add: well_formed_def example_file_def)
  note t = results_file_accumulates [where fs = "[(RESULTS_CSV, example_file)]" and m = example_model and f = example_file]
  note t2 = results_file_accumulates [where fs = "[]" and m = example_model]
  note t3 = results_file_accumulates [where w = ?w and old = example_file and cfg = example_g and rnd = example_rnd
      and w' = w' and out = out]
  note t4 = results_file_accumulates [where c = "''Registration''" and old = example_file and i = 5
      and new = "[[Some 2, Some 0, None, Some 0, Some 1, Some 4, Some 8, Some 0]]"
      and fs' = "[(RESULTS_CSV, ?grown)]" and path = RESULTS_CSV]
  have 1: "store_results example_model [(RESULTS_CSV, example_file)] =
     [(RESULTS_CSV, example_file\<lparr>data_lines := data_lines example_file @ [[Some 1, Some 4]]\<rparr>)]"
    using t [THEN conjunct1, THEN mp, OF a]
    by (simp add: example_model_def DataFrame_of_def first_seen_def lookup_cell_def)
  have 2: "store_results example_model [] =
     [(RESULTS_CSV,
       \<lparr>header = [Name ''P_ID'', Name ''Registration''], data_lines = [[Some 1, Some 4]]\<rparr>)]"
    using t2 [THEN conjunct2, THEN conjunct1, THEN mp, OF b]
    by (simp add: example_model_def DataFrame_of_def first_seen_def lookup_cell_def)
  from t3 [THEN conjunct2, THEN conjunct2, THEN conjunct1, THEN mp, OF c]
  obtain new df where n: "map_of (files_of w') RESULTS_CSV =
          Some (example_file\<lparr>data_lines := data_lines example_file @ new\<rparr>)"
    and n8: "list_all (\<lambda>r. length r = 8) new"
    and rd: "read_csv RESULTS_CSV (files_of w') = Inr df"
    and p: "print_trial_results df = Inr out"
    and cd: "columns df = header example_file"
    and ld: "length (cells df) =
        length (filter (\<lambda>r. r \<noteq> []) (data_lines example_file)) + length new"
    and i: "well_formed example_file \<and> length (header example_file) = 8 \<longrightarrow>
            well_formed (example_file\<lparr>data_lines := data_lines example_file @ new\<rparr>) \<and>
            df = \<lparr>columns = header example_file, cells = data_lines example_file @ new\<rparr>"
    by (elim exE conjE)
  from n len have l: "length new = 2" by (simp add: example_file_def)
  from i wf0 have wf: "well_formed (example_file\<lparr>data_lines := data_lines example_file @ new\<rparr>)"
    and e: "df = \<lparr>columns = header example_file, cells = data_lines example_file @ new\<rparr>"
    by simp_all
  have 3: "\<exists>w' out new df.
        main example_g example_rnd ?w = Some (w', Inr out) \<and>
        map_of (files_of w') RESULTS_CSV =
          Some (example_file\<lparr>data_lines := data_lines example_file @ new\<rparr>) \<and>
        list_all (\<lambda>r. length r = 8) new \<and>
        read_csv RESULTS_CSV (files_of w') = Inr df \<and> print_trial_results df = Inr out \<and>
        well_formed (example_file\<lparr>data_lines := data_lines example_file @ new\<rparr>) \<and>
        df = \<lparr>columns = header example_file, cells = data_lines example_file @ new\<rparr> \<and>
        length new = 2 \<and>
        out = [(''Registration'', Some 8), (''Triage'', Some (12 / 5)),
               (''ED_Assessment'', Some (8 / 5)), (''ACU_Assessment'', None)]"
    using c n n8 rd p wf e l out by (elim conjE) (intro exI conjI; assumption)
  have 4: "\<exists>df. read_csv RESULTS_CSV [(RESULTS_CSV, ?grown)] = Inr df \<and>
           column df ''Registration'' = Inr [Some 9, Some 4]"
    using t4 [THEN conjunct2, THEN conjunct2, THEN conjunct2, THEN mp, OF g]
    by (simp add: example_file_def cell_at_def)
  from wf0 have 5: "well_formed example_file" and 6: "length (header example_file) = 8"
    by simp_all
  from 1 2 5 6 3 4 show ?thesis by (intro conjI)
qed

end
